theory Spec2Isabelle
  imports Main "HOL-Library.Sublist" "HOL-Library.Multiset"
begin

section \<open>Configuration (internal/config/config.go)\<close>

text \<open>
  \<^verbatim>\<open>config.go\<close> declares \<^verbatim>\<open>type BumpType string\<close> and four constants of that type.
  The type admits every string, and \<^verbatim>\<open>Load\<close> and \<^verbatim>\<open>Validate\<close> do not check the values
  of the rule table (only that the table is not empty), so a bump type is modelled as a
  string, with the four constants as the strings the source gives them.
\<close>

type_synonym BumpType = string

definition BumpNone :: BumpType where "BumpNone = ''none''"
definition BumpPatch :: BumpType where "BumpPatch = ''patch''"
definition BumpMinor :: BumpType where "BumpMinor = ''minor''"
definition BumpMajor :: BumpType where "BumpMajor = ''major''"

record VersionConfig =
  File :: string
  Key :: string
  Initial :: string
  Format :: string

text \<open>
  Of the \<^verbatim>\<open>Config\<close> struct only the fields read by the version calculator are kept:
  \<^verbatim>\<open>Version\<close> and \<^verbatim>\<open>BumpRules\<close> (a Go map, here a partial function).
\<close>

record Config =
  Version :: VersionConfig
  BumpRules :: "string \<rightharpoonup> BumpType"

definition GetBumpType :: "Config \<Rightarrow> string \<Rightarrow> BumpType" where
  "GetBumpType c commitType =
     (case BumpRules c commitType of Some bump \<Rightarrow> bump | None \<Rightarrow> BumpNone)"

section \<open>Structured commits (internal/parser)\<close>

record Commit =
  Hash :: string
  Message :: string
  Type :: string
  Scope :: string
  Board :: string
  Description :: string
  ForceMajor :: bool

section \<open>Bump resolution (internal/version/version.go)\<close>

text \<open>
  \<^verbatim>\<open>maxBump\<close> looks both arguments up in a local map literal; a Go map lookup of an
  absent key yields the zero value \<open>0\<close>, so a string that is none of the four
  constants has the precedence of \<^verbatim>\<open>BumpNone\<close>.
\<close>

definition precedence_table :: "BumpType \<rightharpoonup> int" where
  "precedence_table =
     [BumpMajor \<mapsto> 3, BumpMinor \<mapsto> 2, BumpPatch \<mapsto> 1, BumpNone \<mapsto> 0]"

definition precedence :: "BumpType \<Rightarrow> int" where
  "precedence b = (case precedence_table b of Some n \<Rightarrow> n | None \<Rightarrow> 0)"

definition maxBump :: "BumpType \<Rightarrow> BumpType \<Rightarrow> BumpType" where
  "maxBump a b = (if precedence a > precedence b then a else b)"

text \<open>
  The \<^verbatim>\<open>for ... range commits\<close> loop of \<^verbatim>\<open>DetermineBump\<close>, with the accumulator
  \<^verbatim>\<open>bump\<close> as an argument; the early \<^verbatim>\<open>return config.BumpMajor\<close> leaves the loop.
\<close>

fun DetermineBump_loop :: "Config \<Rightarrow> BumpType \<Rightarrow> Commit list \<Rightarrow> BumpType" where
  "DetermineBump_loop c bump [] = bump"
| "DetermineBump_loop c bump (commit # rest) =
     (if ForceMajor commit then BumpMajor
      else DetermineBump_loop c (maxBump bump (GetBumpType c (Type commit))) rest)"

definition DetermineBump :: "Config \<Rightarrow> Commit list \<Rightarrow> BumpType" where
  "DetermineBump c commits = DetermineBump_loop c BumpNone commits"

text \<open>The bump kinds \<open>none < patch < minor < major\<close>, and the rule tables all of whose
  values are bump kinds.\<close>

definition valid_bump :: "BumpType \<Rightarrow> bool" where
  "valid_bump b \<longleftrightarrow> b \<in> {BumpNone, BumpPatch, BumpMinor, BumpMajor}"

definition valid_rules :: "Config \<Rightarrow> bool" where
  "valid_rules c \<longleftrightarrow> (\<forall>t b. BumpRules c t = Some b \<longrightarrow> valid_bump b)"

text \<open>
  Test data, after \<^verbatim>\<open>version_test.go\<close>: a commit that has only a type and a force
  flag, and the configuration of \<^verbatim>\<open>TestCalculate\<close> with a chosen version format.
\<close>

definition mk_commit :: "string \<Rightarrow> bool \<Rightarrow> Commit" where
  "mk_commit t f =
     \<lparr>Hash = '''', Message = '''', Type = t, Scope = '''', Board = '''',
      Description = '''', ForceMajor = f\<rparr>"

definition test_config :: "string \<Rightarrow> Config" where
  "test_config fmt =
     \<lparr>Version = \<lparr>File = '''', Key = '''', Initial = '''', Format = fmt\<rparr>,
      BumpRules = [''Fix'' \<mapsto> BumpPatch, ''Feature'' \<mapsto> BumpMinor,
                   ''Refactor'' \<mapsto> BumpPatch, ''Breaking'' \<mapsto> BumpMajor]\<rparr>"

text \<open>A configuration that \<^verbatim>\<open>Load\<close> accepts (the table is not empty) and whose rule
  values are not bump kinds.\<close>

definition loose_config :: Config where
  "loose_config =
     \<lparr>Version = \<lparr>File = ''composer.json'', Key = ''version'', Initial = ''0.1.0'',
                 Format = ''semver''\<rparr>,
      BumpRules = [''A'' \<mapsto> ''x'', ''B'' \<mapsto> ''y'']\<rparr>"

section \<open>Strings (Go's \<^verbatim>\<open>strings\<close> package, on bytes)\<close>

text \<open>
  A Go string is a sequence of bytes; \<open>string\<close> (a list of 8-bit characters) is the
  same thing. \<^verbatim>\<open>strings.TrimPrefix(s, p)\<close> removes \<open>p\<close> once when \<open>s\<close> starts with it.
\<close>

definition TrimPrefix :: "string \<Rightarrow> string \<Rightarrow> string" where
  "TrimPrefix s p = (if prefix p s then drop (length p) s else s)"

section \<open>The semantic-version library\<close>

text \<open>
  \<^verbatim>\<open>github.com/Masterminds/semver/v3\<close> is a third-party dependency of \<^verbatim>\<open>version.go\<close>;
  its source is not part of the repository. Everything in this section is therefore
  modelled from the specification (sections 3, 4.3 and 7), which describes a version as
  three non-negative integers, parsed from a dotted decimal text of one to three
  components with the missing ones set to zero, printed as \<open>MAJOR.MINOR.PATCH\<close> and
  compared as a triple. Whatever else the real library accepts or prints is not
  modelled.
\<close>

text \<open>The errors of the version package: the library's parse error, and the wrappers
  that \<^verbatim>\<open>Calculate\<close> and \<^verbatim>\<open>Compare\<close> build with \<^verbatim>\<open>fmt.Errorf\<close>.\<close>

datatype error =
    ErrInvalidSemVer
  | InvalidCurrentVersion string error
  | InvalidVersionV1 error
  | InvalidVersionV2 error

text \<open>Modelled from the spec: \<^verbatim>\<open>semver.Version\<close>, three non-negative integers.\<close>

record semver_Version =
  major :: nat
  minor :: nat
  patch :: nat

text \<open>Modelled from the spec: decimal digits, their values and their characters.\<close>

definition isDigit :: "char \<Rightarrow> bool" where
  "isDigit c \<longleftrightarrow> 48 \<le> (of_char c :: nat) \<and> (of_char c :: nat) \<le> 57"

definition digit_val :: "char \<Rightarrow> nat" where
  "digit_val c = of_char c - 48"

definition digit_char :: "nat \<Rightarrow> char" where
  "digit_char n = char_of (48 + n)"

text \<open>Modelled from the spec: a component is a non-empty run of decimal digits, read
  in base ten (the absent library does this with \<^verbatim>\<open>strconv\<close>).\<close>

definition is_number :: "string \<Rightarrow> bool" where
  "is_number s \<longleftrightarrow> s \<noteq> [] \<and> list_all isDigit s"

definition parse_uint :: "string \<Rightarrow> nat" where
  "parse_uint s = foldl (\<lambda>n c. 10 * n + digit_val c) 0 s"

text \<open>Modelled from the spec: decimal printing of one component.\<close>

fun show_nat :: "nat \<Rightarrow> string" where
  "show_nat n =
     (if n < 10 then [digit_char n] else show_nat (n div 10) @ [digit_char (n mod 10)])"

declare show_nat.simps [simp del]

text \<open>The pieces of a string between the occurrences of a separator byte
  (\<^verbatim>\<open>strings.Split\<close> for a one-byte separator): never an empty list.\<close>

fun splitOn :: "char \<Rightarrow> string \<Rightarrow> string list" where
  "splitOn d [] = [[]]"
| "splitOn d (c # cs) =
     (if c = d then [] # splitOn d cs
      else (case splitOn d cs of w # ws \<Rightarrow> (c # w) # ws | [] \<Rightarrow> [[c]]))"

text \<open>Modelled from the spec: the value of the \<open>i\<close>-th component, zero when the text
  has no such component.\<close>

definition segment :: "string list \<Rightarrow> nat \<Rightarrow> nat" where
  "segment parts i = (if i < length parts then parse_uint (parts ! i) else 0)"

text \<open>Modelled from the spec: \<^verbatim>\<open>semver.NewVersion\<close>, absent from the sources. It accepts
  one to three dot-separated decimal components and sets the missing ones to zero;
  anything else is the library's \<^verbatim>\<open>ErrInvalidSemVer\<close>.\<close>

definition NewVersion :: "string \<Rightarrow> error + semver_Version" where
  "NewVersion v =
     (let parts = splitOn (CHR ''.'') v
      in if length parts \<le> 3 \<and> list_all is_number parts
         then Inr \<lparr>major = segment parts 0, minor = segment parts 1, patch = segment parts 2\<rparr>
         else Inl ErrInvalidSemVer)"

text \<open>Modelled from the spec: \<^verbatim>\<open>Version.String\<close> of the absent library, the text
  \<open>MAJOR.MINOR.PATCH\<close>.\<close>

definition Version_String :: "semver_Version \<Rightarrow> string" where
  "Version_String ver =
     show_nat (major ver) @ ''.'' @ show_nat (minor ver) @ ''.'' @ show_nat (patch ver)"

text \<open>Modelled from the spec: \<^verbatim>\<open>IncMajor\<close>, \<^verbatim>\<open>IncMinor\<close> and \<^verbatim>\<open>IncPatch\<close> of the absent
  library, the bump arithmetic of section 4.3.\<close>

definition IncMajor :: "semver_Version \<Rightarrow> semver_Version" where
  "IncMajor ver = \<lparr>major = major ver + 1, minor = 0, patch = 0\<rparr>"

definition IncMinor :: "semver_Version \<Rightarrow> semver_Version" where
  "IncMinor ver = \<lparr>major = major ver, minor = minor ver + 1, patch = 0\<rparr>"

definition IncPatch :: "semver_Version \<Rightarrow> semver_Version" where
  "IncPatch ver = \<lparr>major = major ver, minor = minor ver, patch = patch ver + 1\<rparr>"

text \<open>Modelled from the spec: \<^verbatim>\<open>Version.Compare\<close> of the absent library, the comparison
  of the integer triples with a result in \<open>{-1, 0, 1}\<close>.\<close>

definition compareSegment :: "nat \<Rightarrow> nat \<Rightarrow> int" where
  "compareSegment a b = (if a < b then - 1 else if a > b then 1 else 0)"

definition Version_Compare :: "semver_Version \<Rightarrow> semver_Version \<Rightarrow> int" where
  "Version_Compare v w =
     (if compareSegment (major v) (major w) \<noteq> 0 then compareSegment (major v) (major w)
      else if compareSegment (minor v) (minor w) \<noteq> 0 then compareSegment (minor v) (minor w)
      else compareSegment (patch v) (patch w))"

text \<open>\<^verbatim>\<open>strings.Join(parts, sep)\<close>.\<close>

fun Join :: "string list \<Rightarrow> string \<Rightarrow> string" where
  "Join [] sep = []"
| "Join [x] sep = x"
| "Join (x # y # ys) sep = x @ sep @ Join (y # ys) sep"

text \<open>
  The specification's words for an acceptable version text (section 7): a well-formed
  non-negative dotted-integer version of one to three components. It is stated on its
  own, without the splitting function the parser uses.
\<close>

definition well_formed_version :: "string \<Rightarrow> bool" where
  "well_formed_version s \<longleftrightarrow>
     (\<exists>comps. s = Join comps ''.'' \<and> 1 \<le> length comps \<and> length comps \<le> 3
        \<and> (\<forall>c \<in> set comps. c \<noteq> [] \<and> (\<forall>d \<in> set c. isDigit d)))"

section \<open>Version calculation (internal/version/version.go)\<close>

definition parseVersion :: "string \<Rightarrow> error + semver_Version" where
  "parseVersion versionStr = NewVersion (TrimPrefix versionStr ''v'')"

definition formatVersion :: "Config \<Rightarrow> semver_Version \<Rightarrow> string" where
  "formatVersion c ver =
     (let verStr = Version_String ver
      in if Format (Version c) = ''v-prefix'' then ''v'' @ verStr else verStr)"

text \<open>
  Go's \<^verbatim>\<open>Calculate\<close> returns \<^verbatim>\<open>(string, config.BumpType, error)\<close>; the model returns the
  same triple, \<open>None\<close> standing for a \<^verbatim>\<open>nil\<close> error. The \<^verbatim>\<open>switch\<close> has a
  \<^verbatim>\<open>default\<close> branch, taken for every value but the three bumps, that returns the
  argument \<^verbatim>\<open>current\<close> itself.
\<close>

definition Calculate :: "Config \<Rightarrow> string \<Rightarrow> Commit list \<Rightarrow> string \<times> BumpType \<times> error option" where
  "Calculate c current commits =
     (case parseVersion current of
        Inl err \<Rightarrow> ('''', BumpNone, Some (InvalidCurrentVersion current err))
      | Inr ver \<Rightarrow>
          (let bump = DetermineBump c commits
           in if bump = BumpMajor then (formatVersion c (IncMajor ver), bump, None)
              else if bump = BumpMinor then (formatVersion c (IncMinor ver), bump, None)
              else if bump = BumpPatch then (formatVersion c (IncPatch ver), bump, None)
              else (current, BumpNone, None)))"

definition IsValid :: "string \<Rightarrow> bool" where
  "IsValid versionStr =
     (case NewVersion (TrimPrefix versionStr ''v'') of Inl err \<Rightarrow> False | Inr ver \<Rightarrow> True)"

definition Compare :: "string \<Rightarrow> string \<Rightarrow> int \<times> error option" where
  "Compare v1 v2 =
     (case NewVersion (TrimPrefix v1 ''v'') of
        Inl err \<Rightarrow> (0, Some (InvalidVersionV1 err))
      | Inr ver1 \<Rightarrow>
          (case NewVersion (TrimPrefix v2 ''v'') of
             Inl err \<Rightarrow> (0, Some (InvalidVersionV2 err))
           | Inr ver2 \<Rightarrow> (Version_Compare ver1 ver2, None)))"

section \<open>More of Go's \<^verbatim>\<open>strings\<close> package\<close>

text \<open>\<^verbatim>\<open>strings.Contains(s, substr)\<close>: \<open>substr\<close> occurs in \<open>s\<close> as a contiguous block.\<close>

fun Contains :: "string \<Rightarrow> string \<Rightarrow> bool" where
  "Contains [] substr = (substr = [])"
| "Contains (c # cs) substr = (prefix substr (c # cs) \<or> Contains cs substr)"

definition HasSuffix :: "string \<Rightarrow> string \<Rightarrow> bool" where
  "HasSuffix s suf = suffix suf s"

definition TrimSuffix :: "string \<Rightarrow> string \<Rightarrow> string" where
  "TrimSuffix s suf = (if suffix suf s then take (length s - length suf) s else s)"

text \<open>
  \<^verbatim>\<open>strings.SplitN(s, sep, 2)\<close> for a one-byte separator: the text before the first
  separator and the text after it, or the whole string alone when there is none.
\<close>

definition SplitN2 :: "string \<Rightarrow> char \<Rightarrow> string list" where
  "SplitN2 s sep =
     (if sep \<in> set s
      then [takeWhile (\<lambda>c. c \<noteq> sep) s, tl (dropWhile (\<lambda>c. c \<noteq> sep) s)]
      else [s])"

text \<open>
  \<^verbatim>\<open>strings.TrimSpace\<close> removes leading and trailing white space as \<^verbatim>\<open>unicode.IsSpace\<close>
  defines it. A Go string is UTF-8, so each white-space code point is listed by its
  encoding: the six ASCII ones, U+0085, U+00A0, U+1680, U+2000 to U+200A, U+2028,
  U+2029, U+202F, U+205F and U+3000. A byte sequence that is not the encoding of one of
  them (invalid UTF-8 included) is not white space.
\<close>

definition space_runes :: "string list" where
  "space_runes =
     [[CHR 0x09], [CHR 0x0A], [CHR 0x0B], [CHR 0x0C], [CHR 0x0D], [CHR 0x20],
      [CHR 0xC2, CHR 0x85], [CHR 0xC2, CHR 0xA0], [CHR 0xE1, CHR 0x9A, CHR 0x80],
      [CHR 0xE2, CHR 0x80, CHR 0x80], [CHR 0xE2, CHR 0x80, CHR 0x81],
      [CHR 0xE2, CHR 0x80, CHR 0x82], [CHR 0xE2, CHR 0x80, CHR 0x83],
      [CHR 0xE2, CHR 0x80, CHR 0x84], [CHR 0xE2, CHR 0x80, CHR 0x85],
      [CHR 0xE2, CHR 0x80, CHR 0x86], [CHR 0xE2, CHR 0x80, CHR 0x87],
      [CHR 0xE2, CHR 0x80, CHR 0x88], [CHR 0xE2, CHR 0x80, CHR 0x89],
      [CHR 0xE2, CHR 0x80, CHR 0x8A], [CHR 0xE2, CHR 0x80, CHR 0xA8],
      [CHR 0xE2, CHR 0x80, CHR 0xA9], [CHR 0xE2, CHR 0x80, CHR 0xAF],
      [CHR 0xE2, CHR 0x81, CHR 0x9F], [CHR 0xE3, CHR 0x80, CHR 0x80]]"

function TrimLeftSpace :: "string \<Rightarrow> string" where
  "TrimLeftSpace s =
     (case find (\<lambda>w. prefix w s) space_runes of
        None \<Rightarrow> s
      | Some w \<Rightarrow> TrimLeftSpace (drop (length w) s))"
  by pat_completeness auto
termination
proof (relation "measure length")
  fix s w
  assume "find (\<lambda>w. prefix w s) space_runes = Some w"
  then have "w \<in> set space_runes" and "prefix w s"
    by (auto simp: find_Some_iff)
  then have "w \<noteq> []" and "length w \<le> length s"
    by (auto simp: space_runes_def prefix_length_le)
  then show "(drop (length w) s, s) \<in> measure length"
    by (cases w) auto
qed simp

function TrimRightSpace :: "string \<Rightarrow> string" where
  "TrimRightSpace s =
     (case find (\<lambda>w. suffix w s) space_runes of
        None \<Rightarrow> s
      | Some w \<Rightarrow> TrimRightSpace (take (length s - length w) s))"
  by pat_completeness auto
termination
proof (relation "measure length")
  fix s w
  assume "find (\<lambda>w. suffix w s) space_runes = Some w"
  then have "w \<in> set space_runes" and "suffix w s"
    by (auto simp: find_Some_iff)
  then have "w \<noteq> []" and "length w \<le> length s"
    by (auto simp: space_runes_def suffix_length_le)
  then show "(take (length s - length w) s, s) \<in> measure length"
    by (cases w) auto
qed simp

declare TrimLeftSpace.simps [simp del] TrimRightSpace.simps [simp del]

definition TrimSpace :: "string \<Rightarrow> string" where
  "TrimSpace s = TrimRightSpace (TrimLeftSpace s)"

text \<open>The bytes that occur in the encoding of some white-space code point.\<close>

definition space_byte :: "char \<Rightarrow> bool" where
  "space_byte c \<longleftrightarrow> c \<in> set (concat space_runes)"

section \<open>Regular expressions (Go's \<^verbatim>\<open>regexp\<close> package)\<close>

text \<open>
  The four patterns of the parser use literals, one-character classes under \<open>+\<close> and
  \<open>*\<close>, optional groups, named captures and the anchors \<open>^\<close> and \<open>$\<close>. Go's
  \<^verbatim>\<open>regexp\<close> chooses, among the matches that start leftmost, the one a backtracking
  search finds first; \<open>match\<close> lists the outcomes of that search in its order: the
  greedy choice first, shorter ones after it. An outcome is the text still to be read
  and the captures made so far.

  Matching is on bytes. The classes \<open>[A-Z]\<close>, \<open>\d\<close>, \<open>\w\<close> and \<open>\s\<close> are ASCII in
  Go; \<open>[^)]\<close>, \<open>[^>]\<close> and \<open>.\<close> go rune by rune, which gives the same matches as byte
  by byte because what follows them in the patterns is an ASCII literal or the end of
  the text. Without the flag \<open>s\<close>, \<open>.\<close> does not match a newline; without \<open>m\<close>, \<open>$\<close>
  is the end of the text.
\<close>

datatype regex =
    Str string
  | Plus "char \<Rightarrow> bool"
  | Star "char \<Rightarrow> bool"
  | Seq regex regex
  | Opt regex
  | Group string regex
  | EndText

text \<open>The character classes of the patterns: \<open>[A-Z]\<close>, \<open>[a-z]\<close> (a part of \<open>\w\<close>),
  \<open>\d\<close>, \<open>\w\<close>, \<open>\s\<close> (which in Go has no vertical tab), \<open>.\<close> and \<open>[^x]\<close>.\<close>

definition cls_upper :: "char \<Rightarrow> bool" where
  "cls_upper c \<longleftrightarrow> 65 \<le> (of_char c :: nat) \<and> (of_char c :: nat) \<le> 90"

definition cls_lower :: "char \<Rightarrow> bool" where
  "cls_lower c \<longleftrightarrow> 97 \<le> (of_char c :: nat) \<and> (of_char c :: nat) \<le> 122"

definition cls_digit :: "char \<Rightarrow> bool" where
  "cls_digit c \<longleftrightarrow> 48 \<le> (of_char c :: nat) \<and> (of_char c :: nat) \<le> 57"

definition cls_word :: "char \<Rightarrow> bool" where
  "cls_word c \<longleftrightarrow> cls_digit c \<or> cls_upper c \<or> cls_lower c \<or> c = CHR ''_''"

definition cls_space :: "char \<Rightarrow> bool" where
  "cls_space c \<longleftrightarrow> c \<in> set [CHR 0x09, CHR 0x0A, CHR 0x0C, CHR 0x0D, CHR 0x20]"

definition cls_any :: "char \<Rightarrow> bool" where
  "cls_any c \<longleftrightarrow> c \<noteq> CHR 0x0A"

definition cls_not :: "char \<Rightarrow> char \<Rightarrow> bool" where
  "cls_not x c \<longleftrightarrow> c \<noteq> x"

text \<open>The texts left after a greedy run of one or more characters of a class: the
  longest run first.\<close>

fun many :: "(char \<Rightarrow> bool) \<Rightarrow> string \<Rightarrow> string list" where
  "many P [] = []"
| "many P (c # cs) = (if P c then many P cs @ [cs] else [])"

type_synonym captures = "string \<rightharpoonup> string"

fun match :: "regex \<Rightarrow> string \<times> captures \<Rightarrow> (string \<times> captures) list" where
  "match (Str w) (s, g) = (if prefix w s then [(drop (length w) s, g)] else [])"
| "match (Plus P) (s, g) = map (\<lambda>r. (r, g)) (many P s)"
| "match (Star P) (s, g) = map (\<lambda>r. (r, g)) (many P s @ [s])"
| "match (Seq a b) (s, g) = concat (map (match b) (match a (s, g)))"
| "match (Opt a) (s, g) = match a (s, g) @ [(s, g)]"
| "match (Group n a) (s, g) =
     map (\<lambda>(r, g'). (r, g'(n \<mapsto> take (length s - length r) s))) (match a (s, g))"
| "match EndText (s, g) = (if s = [] then [(s, g)] else [])"

fun group_names :: "regex \<Rightarrow> string list" where
  "group_names (Group n a) = n # group_names a"
| "group_names (Seq a b) = group_names a @ group_names b"
| "group_names (Opt a) = group_names a"
| "group_names r = []"

text \<open>A pattern whose last element is \<open>$\<close>.\<close>

fun anchored_end :: "regex \<Rightarrow> bool" where
  "anchored_end EndText = True"
| "anchored_end (Seq a b) = anchored_end b"
| "anchored_end r = False"

text \<open>\<^verbatim>\<open>SubexpNames\<close>: the name of group 0 (the whole match) is the empty string.\<close>

definition SubexpNames :: "regex \<Rightarrow> string list" where
  "SubexpNames re = '''' # group_names re"

text \<open>
  \<^verbatim>\<open>FindStringSubmatch\<close> for a pattern that starts with \<open>^\<close>: a match can only start at
  offset 0. The result is the matched text followed by the text of every group, the
  empty string for a group that took no part in the match.
\<close>

definition FindStringSubmatch :: "regex \<Rightarrow> string \<Rightarrow> string list option" where
  "FindStringSubmatch re s =
     (case match re (s, Map.empty) of
        [] \<Rightarrow> None
      | (r, g) # _ \<Rightarrow>
          Some (take (length s - length r) s
                # map (\<lambda>n. case g n of Some v \<Rightarrow> v | None \<Rightarrow> '''') (group_names re)))"

fun seqs :: "regex list \<Rightarrow> regex" where
  "seqs [] = Str ''''"
| "seqs [r] = r"
| "seqs (r # rs) = Seq r (seqs rs)"

section \<open>The commit message parser (internal/parser)\<close>

text \<open>\<^verbatim>\<open>^(?P<board>[A-Z]+-\d+)(?:\((?P<scope>[^)]+)\))?: <(?P<type>[^>]+)>\s*(?P<desc>.+)$\<close>\<close>

definition pattern1 :: regex where
  "pattern1 = seqs
     [Group ''board'' (seqs [Plus cls_upper, Str ''-'', Plus cls_digit]),
      Opt (seqs [Str ''('', Group ''scope'' (Plus (cls_not (CHR '')''))), Str '')'']),
      Str '': <'', Group ''type'' (Plus (cls_not (CHR ''>''))), Str ''>'',
      Star cls_space, Group ''desc'' (Plus cls_any), EndText]"

text \<open>\<^verbatim>\<open>^(?P<board>[A-Z]+-\d+)\((?P<scope>[^)]+)\): (?P<type>\w+)\s+(?P<desc>.+)$\<close>\<close>

definition pattern2 :: regex where
  "pattern2 = seqs
     [Group ''board'' (seqs [Plus cls_upper, Str ''-'', Plus cls_digit]),
      Str ''('', Group ''scope'' (Plus (cls_not (CHR '')''))), Str ''): '',
      Group ''type'' (Plus cls_word), Plus cls_space,
      Group ''desc'' (Plus cls_any), EndText]"

text \<open>\<^verbatim>\<open>^(?P<board>[A-Z]+-\d+): (?P<type>\w+)\s+(?P<desc>.+)$\<close>\<close>

definition pattern3 :: regex where
  "pattern3 = seqs
     [Group ''board'' (seqs [Plus cls_upper, Str ''-'', Plus cls_digit]),
      Str '': '', Group ''type'' (Plus cls_word), Plus cls_space,
      Group ''desc'' (Plus cls_any), EndText]"

text \<open>\<^verbatim>\<open>^(?P<type>\w+)(?P<force>!)?(?:\((?P<scope>[^)]+)\))?: (?P<desc>.+)$\<close>\<close>

definition pattern4 :: regex where
  "pattern4 = seqs
     [Group ''type'' (Plus cls_word), Opt (Group ''force'' (Str ''!'')),
      Opt (seqs [Str ''('', Group ''scope'' (Plus (cls_not (CHR '')''))), Str '')'']),
      Str '': '', Group ''desc'' (Plus cls_any), EndText]"

definition patterns :: "regex list" where
  "patterns = [pattern1, pattern2, pattern3, pattern4]"

text \<open>The body of the loop over \<^verbatim>\<open>names\<close>: the \<^verbatim>\<open>switch\<close> on the group's name. A group
  without a name is skipped.\<close>

definition assign :: "Commit \<Rightarrow> string \<times> string \<Rightarrow> Commit" where
  "assign commit nv =
     (let name = fst nv; val = snd nv
      in if name = '''' then commit
         else if name = ''type'' then commit\<lparr>Type := TrimSpace val\<rparr>
         else if name = ''scope'' then commit\<lparr>Scope := val\<rparr>
         else if name = ''board'' then commit\<lparr>Board := val\<rparr>
         else if name = ''desc'' then commit\<lparr>Description := val\<rparr>
         else if name = ''force'' then (if val = ''!'' then commit\<lparr>ForceMajor := True\<rparr> else commit)
         else commit)"

text \<open>The loop \<^verbatim>\<open>for i, name := range names\<close>; index 0 is skipped.\<close>

definition apply_matches :: "Commit \<Rightarrow> string list \<Rightarrow> string list \<Rightarrow> Commit" where
  "apply_matches commit names matches = foldl assign commit (tl (zip names matches))"

text \<open>The loop \<^verbatim>\<open>for _, pattern := range patterns\<close>: the first pattern that matches
  fills the commit and ends the search.\<close>

fun try_patterns :: "regex list \<Rightarrow> string \<Rightarrow> Commit \<Rightarrow> Commit option" where
  "try_patterns [] message commit = None"
| "try_patterns (pattern # rest) message commit =
     (case FindStringSubmatch pattern message of
        Some matches \<Rightarrow> Some (apply_matches commit (SubexpNames pattern) matches)
      | None \<Rightarrow> try_patterns rest message commit)"

text \<open>The commit as it stands after the scan for \<open>Breaking\<close> and \<open>BREAKING\<close>.\<close>

definition scanned :: "string \<Rightarrow> string \<Rightarrow> Commit" where
  "scanned raw message =
     \<lparr>Hash = '''', Message = raw, Type = '''', Scope = '''', Board = '''', Description = '''',
      ForceMajor = (Contains message ''Breaking'' \<or> Contains message ''BREAKING'')\<rparr>"

text \<open>The fallback after the loop.\<close>

definition fallback :: "Commit \<Rightarrow> string \<Rightarrow> Commit" where
  "fallback commit message =
     (case SplitN2 message (CHR '':'') of
        [p0, p1] \<Rightarrow>
          (let possibleType = TrimSpace p0;
               commit1 = (if HasSuffix possibleType ''!''
                          then commit\<lparr>ForceMajor := True\<rparr> else commit);
               possibleType1 = (if HasSuffix possibleType ''!''
                                then TrimSuffix possibleType ''!'' else possibleType)
           in commit1\<lparr>Type := possibleType1, Description := TrimSpace p1\<rparr>)
      | _ \<Rightarrow> commit)"

text \<open>\<^verbatim>\<open>Parse\<close> returns \<^verbatim>\<open>(*Commit, error)\<close>; every \<^verbatim>\<open>return\<close> of it gives a \<^verbatim>\<open>nil\<close> error.\<close>

definition Parse :: "string \<Rightarrow> Commit \<times> error option" where
  "Parse raw =
     (let message = TrimSpace raw;
          commit = scanned raw message
      in case try_patterns patterns message commit of
           Some c \<Rightarrow> (c, None)
         | None \<Rightarrow> (fallback commit message, None))"

text \<open>\<^verbatim>\<open>(*Commit).String\<close>.\<close>

definition Commit_String :: "Commit \<Rightarrow> string" where
  "Commit_String c =
     Join ((if Board c \<noteq> '''' then [Board c] else [])
           @ (if Type c \<noteq> '''' then [Type c @ (if ForceMajor c then ''!'' else '''')] else [])
           @ (if Scope c \<noteq> '''' then [''('' @ Scope c @ '')''] else [])
           @ (if Description c \<noteq> '''' then [Description c] else []))
       '' ''"

text \<open>The fields that \<^verbatim>\<open>TestParse\<close> compares: the type, scope, board, description and
  force flag of the parsed message.\<close>

definition parsed :: "string \<Rightarrow> string \<times> string \<times> string \<times> string \<times> bool" where
  "parsed message =
     (let c = fst (Parse message) in (Type c, Scope c, Board c, Description c, ForceMajor c))"

section \<open>The repository's tests, on the model\<close>

text \<open>The table of \<^verbatim>\<open>TestParse\<close>, row by row.\<close>

lemma TestParse:
  "parsed ''Feature(log): added logger wrap'' = (''Feature'', ''log'', '''', ''added logger wrap'', False)"
  "parsed ''Fix: some commit'' = (''Fix'', '''', '''', ''some commit'', False)"
  "parsed ''B-378670(payment,spare): <Fix> removed spares update''
     = (''Fix'', ''payment,spare'', ''B-378670'', ''removed spares update'', False)"
  "parsed ''U-1234(user): Feature some feat'' = (''Feature'', ''user'', ''U-1234'', ''some feat'', False)"
  "parsed ''Fix!(auth): critical security patch''
     = (''Fix'', ''auth'', '''', ''critical security patch'', True)"
  "parsed ''Feature: Breaking change in API'' = (''Feature'', '''', '''', ''Breaking change in API'', True)"
  "parsed ''Refactor(db): optimize queries'' = (''Refactor'', ''db'', '''', ''optimize queries'', False)"
  "parsed ''Docs: update API documentation'' = (''Docs'', '''', '''', ''update API documentation'', False)"
  "parsed ''B-12345: <Build> update dependencies''
     = (''Build'', '''', ''B-12345'', ''update dependencies'', False)"
  "parsed ''U-9876: Tests added for parser'' = (''Tests'', '''', ''U-9876'', ''added for parser'', False)"
  by code_simp+

text \<open>\<^verbatim>\<open>TestCommitString\<close>, and the tables of \<^verbatim>\<open>TestIsValid\<close> and \<^verbatim>\<open>TestCompare\<close>.\<close>

lemma TestCommitString:
  "Commit_String \<lparr>Hash = '''', Message = '''', Type = ''Feature'', Scope = ''auth'',
     Board = ''B-123'', Description = ''add OAuth'', ForceMajor = True\<rparr>
   = ''B-123 Feature! (auth) add OAuth''"
  by code_simp

lemma TestIsValid:
  "IsValid ''1.2.3''" "IsValid ''v1.2.3''" "IsValid ''0.0.1''" "IsValid ''10.20.30''"
  "IsValid ''1.2''" "IsValid ''1''" "\<not> IsValid ''invalid''" "\<not> IsValid ''''"
  by code_simp+

lemma TestCompare:
  "Compare ''1.2.3'' ''1.2.3'' = (0, None)"
  "Compare ''1.2.3'' ''1.2.4'' = (- 1, None)"
  "Compare ''1.2.4'' ''1.2.3'' = (1, None)"
  "Compare ''1.3.0'' ''1.2.9'' = (1, None)"
  "Compare ''2.0.0'' ''1.9.9'' = (1, None)"
  "Compare ''v1.2.3'' ''v1.2.3'' = (0, None)"
  "Compare ''v1.2.3'' ''1.2.3'' = (0, None)"
  by code_simp+

text \<open>Cases of \<^verbatim>\<open>TestCalculate\<close> and \<^verbatim>\<open>TestCalculateWithVPrefix\<close>.\<close>

lemma TestCalculate:
  "Calculate (test_config ''semver'') ''1.2.3'' [mk_commit ''Fix'' True] = (''2.0.0'', BumpMajor, None)"
  "Calculate (test_config ''semver'') ''1.2.3''
     [mk_commit ''Fix'' False, mk_commit ''Feature'' False, mk_commit ''Refactor'' False]
   = (''1.3.0'', BumpMinor, None)"
  "Calculate (test_config ''semver'') ''1.2.3''
     [mk_commit ''Fix'' False, mk_commit ''Feature'' False, mk_commit ''Breaking'' False]
   = (''2.0.0'', BumpMajor, None)"
  "Calculate (test_config ''semver'') ''1.2.3'' [] = (''1.2.3'', BumpNone, None)"
  "Calculate (test_config ''v-prefix'') ''v1.2.3'' [mk_commit ''Feature'' False]
   = (''v1.3.0'', BumpMinor, None)"
  by code_simp+

section \<open>Properties of the bump resolver\<close>

lemma precedence_simps:
  "precedence BumpNone = 0" "precedence BumpPatch = 1"
  "precedence BumpMinor = 2" "precedence BumpMajor = 3"
  by (simp_all add: precedence_def precedence_table_def
      BumpNone_def BumpPatch_def BumpMinor_def BumpMajor_def)

lemma precedence_inj:
  "valid_bump a \<Longrightarrow> valid_bump b \<Longrightarrow> precedence a = precedence b \<Longrightarrow> a = b"
  by (auto simp: valid_bump_def precedence_simps)

lemma precedence_maxBump: "precedence (maxBump a b) = max (precedence a) (precedence b)"
  by (simp add: maxBump_def)

lemma valid_GetBumpType: "valid_rules c \<Longrightarrow> valid_bump (GetBumpType c t)"
  by (auto simp: valid_rules_def GetBumpType_def valid_bump_def split: option.splits)

lemma DetermineBump_loop_force:
  "\<not> list_ex ForceMajor xs \<Longrightarrow> ForceMajor c \<Longrightarrow>
   DetermineBump_loop cfg bump (xs @ c # ys) = BumpMajor"
  by (induction xs arbitrary: bump) auto

lemma DetermineBump_loop_fold:
  "\<not> list_ex ForceMajor cs \<Longrightarrow>
   DetermineBump_loop cfg bump cs = foldl maxBump bump (map (\<lambda>c. GetBumpType cfg (Type c)) cs)"
  by (induction cs arbitrary: bump) auto

lemma DetermineBump_loop_member:
  "\<not> list_ex ForceMajor cs \<Longrightarrow>
   DetermineBump_loop cfg bump cs \<in> insert bump ((\<lambda>c. GetBumpType cfg (Type c)) ` set cs)"
proof (induction cs arbitrary: bump)
  case Nil
  then show ?case by simp
next
  case (Cons c cs)
  from Cons.prems have nf: "\<not> ForceMajor c" "\<not> list_ex ForceMajor cs" by auto
  from Cons.IH [OF nf(2), of "maxBump bump (GetBumpType cfg (Type c))"] nf(1)
  show ?case by (auto simp: maxBump_def split: if_splits)
qed

lemma Max_insert_max:
  fixes a b :: int
  shows "finite S \<Longrightarrow> Max (insert (max a b) S) = Max (insert a (insert b S))"
  by (cases "S = {}") (simp_all add: max.assoc)

lemma DetermineBump_loop_precedence:
  "\<not> list_ex ForceMajor cs \<Longrightarrow>
   precedence (DetermineBump_loop cfg bump cs) =
     Max (insert (precedence bump) ((\<lambda>c. precedence (GetBumpType cfg (Type c))) ` set cs))"
proof (induction cs arbitrary: bump)
  case Nil
  then show ?case by simp
next
  case (Cons c cs)
  let ?f = "\<lambda>c. precedence (GetBumpType cfg (Type c))"
  from Cons.prems have nf: "\<not> ForceMajor c" "\<not> list_ex ForceMajor cs" by auto
  have "precedence (DetermineBump_loop cfg bump (c # cs)) =
        Max (insert (max (precedence bump) (?f c)) (?f ` set cs))"
    using nf Cons.IH [OF nf(2)] by (simp add: precedence_maxBump)
  also have "\<dots> = Max (insert (precedence bump) (insert (?f c) (?f ` set cs)))"
    by (rule Max_insert_max) simp
  finally show ?case by simp
qed

lemma DetermineBump_force_anywhere:
  "list_ex ForceMajor cs \<Longrightarrow> DetermineBump cfg cs = BumpMajor"
proof -
  assume "list_ex ForceMajor cs"
  then obtain xs c ys where "cs = xs @ c # ys" "ForceMajor c" "\<not> list_ex ForceMajor xs"
    by (metis list_ex_iff split_list_first_prop)
  then show ?thesis by (simp add: DetermineBump_def DetermineBump_loop_force)
qed

lemma DetermineBump_valid:
  assumes "valid_rules cfg" and "\<not> list_ex ForceMajor cs"
  shows "valid_bump (DetermineBump cfg cs)"
proof -
  from DetermineBump_loop_member [OF assms(2), of cfg BumpNone]
  have "DetermineBump cfg cs = BumpNone
      \<or> (\<exists>c::Commit. DetermineBump cfg cs = GetBumpType cfg (Type c))"
    unfolding DetermineBump_def by blast
  then show ?thesis
  proof
    assume "DetermineBump cfg cs = BumpNone"
    then show ?thesis by (simp add: valid_bump_def)
  next
    assume "\<exists>c::Commit. DetermineBump cfg cs = GetBumpType cfg (Type c)"
    then show ?thesis using valid_GetBumpType [OF assms(1)] by auto
  qed
qed

section \<open>Claims about the bump resolver\<close>

text \<open>
  C1. For every bump rule table and every list of structured commits: on the empty list
  \<open>DetermineBump\<close> returns \<open>none\<close>; as soon as it meets the first commit with
  \<open>ForceMajor\<close> set it returns \<open>major\<close>, whatever commits follow; and when no commit is
  flagged, it returns the maximum of the values that the table gives to the commits'
  types, taken in input order and starting from \<open>none\<close>: the result is one of these
  values and no value has a higher precedence. The table's value is used for a type
  that is in the table and \<open>none\<close> for a type that is not. On the bump kinds
  \<open>precedence\<close> is the order \<open>none < patch < minor < major\<close>.
\<close>

theorem DetermineBump_spec:
  "DetermineBump cfg [] = BumpNone
   \<and> (\<forall>xs (c::Commit) ys. \<not> list_ex ForceMajor xs \<and> ForceMajor c
         \<longrightarrow> DetermineBump cfg (xs @ c # ys) = BumpMajor)
   \<and> (\<forall>cs::Commit list. \<not> list_ex ForceMajor cs \<longrightarrow>
         DetermineBump cfg cs \<in> insert BumpNone ((\<lambda>c. GetBumpType cfg (Type c)) ` set cs)
       \<and> precedence (DetermineBump cfg cs) =
           Max (insert (precedence BumpNone)
                 ((\<lambda>c. precedence (GetBumpType cfg (Type c))) ` set cs))
       \<and> DetermineBump cfg cs = foldl maxBump BumpNone (map (\<lambda>c. GetBumpType cfg (Type c)) cs))
   \<and> (\<forall>t b. BumpRules cfg t = Some b \<longrightarrow> GetBumpType cfg t = b)
   \<and> (\<forall>t. BumpRules cfg t = None \<longrightarrow> GetBumpType cfg t = BumpNone)
   \<and> inj_on precedence {BumpNone, BumpPatch, BumpMinor, BumpMajor}
   \<and> precedence BumpNone < precedence BumpPatch
   \<and> precedence BumpPatch < precedence BumpMinor
   \<and> precedence BumpMinor < precedence BumpMajor"
proof (intro conjI allI impI)
  show "DetermineBump cfg [] = BumpNone"
    by (simp add: DetermineBump_def)
next
  fix xs ys :: "Commit list" and c :: Commit
  assume "\<not> list_ex ForceMajor xs \<and> ForceMajor c"
  then show "DetermineBump cfg (xs @ c # ys) = BumpMajor"
    by (simp add: DetermineBump_def DetermineBump_loop_force)
next
  fix cs :: "Commit list"
  assume "\<not> list_ex ForceMajor cs"
  then show "DetermineBump cfg cs \<in> insert BumpNone ((\<lambda>c. GetBumpType cfg (Type c)) ` set cs)"
    unfolding DetermineBump_def by (rule DetermineBump_loop_member)
next
  fix cs :: "Commit list"
  assume "\<not> list_ex ForceMajor cs"
  then show "precedence (DetermineBump cfg cs) =
      Max (insert (precedence BumpNone)
        ((\<lambda>c. precedence (GetBumpType cfg (Type c))) ` set cs))"
    unfolding DetermineBump_def by (rule DetermineBump_loop_precedence)
next
  fix cs :: "Commit list"
  assume "\<not> list_ex ForceMajor cs"
  then show "DetermineBump cfg cs
      = foldl maxBump BumpNone (map (\<lambda>c. GetBumpType cfg (Type c)) cs)"
    unfolding DetermineBump_def by (rule DetermineBump_loop_fold)
next
  fix t b
  assume "BumpRules cfg t = Some b"
  then show "GetBumpType cfg t = b"
    by (simp add: GetBumpType_def)
next
  fix t
  assume "BumpRules cfg t = None"
  then show "GetBumpType cfg t = BumpNone"
    by (simp add: GetBumpType_def)
next
  show "inj_on precedence {BumpNone, BumpPatch, BumpMinor, BumpMajor}"
    by (rule inj_onI) (auto simp: precedence_simps)
qed (simp_all add: precedence_simps)

theorem DetermineBump_spec_witness:
  "DetermineBump (test_config ''semver'') [] = BumpNone
   \<and> DetermineBump (test_config ''semver'')
        ([mk_commit ''Fix'' False] @ mk_commit ''Docs'' True # [mk_commit ''Feature'' False])
       = BumpMajor
   \<and> precedence (DetermineBump (test_config ''semver'')
        [mk_commit ''Fix'' False, mk_commit ''Feature'' False, mk_commit ''Chore'' False]) = 2
   \<and> DetermineBump (test_config ''semver'')
        [mk_commit ''Fix'' False, mk_commit ''Feature'' False, mk_commit ''Chore'' False]
       = BumpMinor
   \<and> GetBumpType (test_config ''semver'') ''Fix'' = BumpPatch
   \<and> GetBumpType (test_config ''semver'') ''Feature'' = BumpMinor
   \<and> GetBumpType (test_config ''semver'') ''Chore'' = BumpNone"
proof -
  let ?cfg = "test_config ''semver''"
  let ?cs = "[mk_commit ''Fix'' False, mk_commit ''Feature'' False, mk_commit ''Chore'' False]"
  have nf: "\<not> list_ex ForceMajor ?cs" by (simp add: mk_commit_def)
  have f: "\<not> list_ex ForceMajor [mk_commit ''Fix'' False] \<and> ForceMajor (mk_commit ''Docs'' True)"
    by (simp add: mk_commit_def)
  have a: "BumpRules ?cfg ''Chore'' = None" "BumpRules ?cfg ''Fix'' = Some BumpPatch"
    "BumpRules ?cfg ''Feature'' = Some BumpMinor"
    by (simp_all add: test_config_def)
  note spec = DetermineBump_spec [of ?cfg]
  from spec have 1: "DetermineBump ?cfg [] = BumpNone" by (rule conjunct1)
  from spec f have 2: "DetermineBump ?cfg
      ([mk_commit ''Fix'' False] @ mk_commit ''Docs'' True # [mk_commit ''Feature'' False])
     = BumpMajor" by blast
  from spec a have 5: "GetBumpType ?cfg ''Chore'' = BumpNone"
    "GetBumpType ?cfg ''Fix'' = BumpPatch" "GetBumpType ?cfg ''Feature'' = BumpMinor"
    by blast+
  from spec nf have 3: "DetermineBump ?cfg ?cs
      \<in> insert BumpNone ((\<lambda>c. GetBumpType ?cfg (Type c)) ` set ?cs)"
    and 4: "precedence (DetermineBump ?cfg ?cs) = Max (insert (precedence BumpNone)
             ((\<lambda>c. precedence (GetBumpType ?cfg (Type c))) ` set ?cs))" by blast+
  have ty: "Type (mk_commit t b) = t" for t b by (simp add: mk_commit_def)
  from 4 have 6: "precedence (DetermineBump ?cfg ?cs) = 2"
    by (simp add: ty 5 precedence_simps)
  from 3 have "DetermineBump ?cfg ?cs \<in> {BumpNone, BumpPatch, BumpMinor}"
    by (auto simp: ty 5)
  with 6 have 7: "DetermineBump ?cfg ?cs = BumpMinor"
    by (auto simp: precedence_simps)
  from 1 2 5 6 7 show ?thesis by simp
qed

text \<open>
  C8, as the code has it. \<open>DetermineBump\<close> does not return the same value on every
  permutation of a list for every rule table: a value that is none of the four bump
  kinds has precedence 0 in \<^verbatim>\<open>maxBump\<close>, which on a tie returns its second argument, so
  with the table \<open>{A: x, B: y}\<close> the list \<open>[A, B]\<close> gives \<open>y\<close> and \<open>[B, A]\<close> gives
  \<open>x\<close>.
\<close>

theorem DetermineBump_order_counterexample:
  "mset [mk_commit ''A'' False, mk_commit ''B'' False]
     = mset [mk_commit ''B'' False, mk_commit ''A'' False]
   \<and> DetermineBump loose_config [mk_commit ''A'' False, mk_commit ''B'' False] = ''y''
   \<and> DetermineBump loose_config [mk_commit ''B'' False, mk_commit ''A'' False] = ''x''
   \<and> DetermineBump loose_config [mk_commit ''A'' False, mk_commit ''B'' False]
       \<noteq> DetermineBump loose_config [mk_commit ''B'' False, mk_commit ''A'' False]"
proof -
  have 1: "DetermineBump loose_config [mk_commit ''A'' False, mk_commit ''B'' False] = ''y''"
    by code_simp
  have 2: "DetermineBump loose_config [mk_commit ''B'' False, mk_commit ''A'' False] = ''x''"
    by code_simp
  have 3: "mset [mk_commit ''A'' False, mk_commit ''B'' False]
     = mset [mk_commit ''B'' False, mk_commit ''A'' False]"
    by (simp add: ac_simps)
  from 1 2 3 show ?thesis by simp
qed

text \<open>
  C8, amended. For every bump rule table whose values are all among \<open>none\<close>, \<open>patch\<close>,
  \<open>minor\<close> and \<open>major\<close>, and every list of structured commits, \<open>DetermineBump\<close>
  returns the same bump kind on the list and on any permutation of it, also when one
  or more commits carry \<open>ForceMajor\<close>.
\<close>

theorem DetermineBump_permutation:
  assumes "valid_rules cfg" and "mset cs = mset cs'"
  shows "DetermineBump cfg cs = DetermineBump cfg cs'"
proof (cases "list_ex ForceMajor cs")
  case True
  moreover from assms(2) have "set cs = set cs'" by (rule mset_eq_setD)
  ultimately have "list_ex ForceMajor cs'" by (simp add: list_ex_iff)
  with True show ?thesis by (simp add: DetermineBump_force_anywhere)
next
  case False
  from assms(2) have eq: "set cs = set cs'" by (rule mset_eq_setD)
  with False have False': "\<not> list_ex ForceMajor cs'" by (simp add: list_ex_iff)
  have "precedence (DetermineBump cfg cs) = precedence (DetermineBump cfg cs')"
    unfolding DetermineBump_def
    by (simp add: DetermineBump_loop_precedence [OF False]
          DetermineBump_loop_precedence [OF False'] eq)
  moreover have "valid_bump (DetermineBump cfg cs)" "valid_bump (DetermineBump cfg cs')"
    using assms(1) False False' by (simp_all add: DetermineBump_valid)
  ultimately show ?thesis by (rule precedence_inj [rotated 2])
qed

theorem DetermineBump_permutation_witness:
  "valid_rules (test_config ''semver'')
   \<and> mset [mk_commit ''Fix'' False, mk_commit ''Docs'' True, mk_commit ''Feature'' False]
       = mset [mk_commit ''Feature'' False, mk_commit ''Fix'' False, mk_commit ''Docs'' True]
   \<and> DetermineBump (test_config ''semver'')
        [mk_commit ''Fix'' False, mk_commit ''Docs'' True, mk_commit ''Feature'' False]
     = DetermineBump (test_config ''semver'')
        [mk_commit ''Feature'' False, mk_commit ''Fix'' False, mk_commit ''Docs'' True]
   \<and> DetermineBump (test_config ''semver'')
        [mk_commit ''Feature'' False, mk_commit ''Fix'' False, mk_commit ''Docs'' True]
     = BumpMajor
   \<and> DetermineBump (test_config ''semver'') [mk_commit ''Fix'' False, mk_commit ''Feature'' False]
     = DetermineBump (test_config ''semver'') [mk_commit ''Feature'' False, mk_commit ''Fix'' False]
   \<and> DetermineBump (test_config ''semver'') [mk_commit ''Feature'' False, mk_commit ''Fix'' False]
     = BumpMinor"
proof -
  let ?cfg = "test_config ''semver''"
  have v: "valid_rules ?cfg"
    by (auto simp: valid_rules_def valid_bump_def test_config_def split: if_splits)
  have p: "mset [mk_commit ''Fix'' False, mk_commit ''Docs'' True, mk_commit ''Feature'' False]
       = mset [mk_commit ''Feature'' False, mk_commit ''Fix'' False, mk_commit ''Docs'' True]"
    by (simp add: ac_simps)
  have q: "mset [mk_commit ''Fix'' False, mk_commit ''Feature'' False]
       = mset [mk_commit ''Feature'' False, mk_commit ''Fix'' False]"
    by (simp add: ac_simps)
  have r: "DetermineBump ?cfg
        [mk_commit ''Feature'' False, mk_commit ''Fix'' False, mk_commit ''Docs'' True] = BumpMajor"
    "DetermineBump ?cfg [mk_commit ''Feature'' False, mk_commit ''Fix'' False] = BumpMinor"
    by code_simp+
  from DetermineBump_permutation [OF v p] DetermineBump_permutation [OF v q] v p r
  show ?thesis by simp
qed

section \<open>Properties of the version parser\<close>

lemma splitOn_not_Nil [simp]: "splitOn d s \<noteq> []"
  by (induction s) (auto split: list.splits)

lemma Join_splitOn: "Join (splitOn d s) [d] = s"
proof (induction s)
  case Nil
  then show ?case by simp
next
  case (Cons c cs)
  obtain w ws where sp: "splitOn d cs = w # ws" by (cases "splitOn d cs") auto
  show ?case
  proof (cases "c = d")
    case True
    then show ?thesis using Cons sp by simp
  next
    case False
    then show ?thesis using Cons sp by (cases ws) auto
  qed
qed

lemma splitOn_no_sep: "d \<notin> set x \<Longrightarrow> splitOn d x = [x]"
  by (induction x) auto

lemma splitOn_append_sep: "d \<notin> set x \<Longrightarrow> splitOn d (x @ d # rest) = x # splitOn d rest"
  by (induction x) auto

lemma is_number_not_dot: "is_number x \<Longrightarrow> CHR ''.'' \<notin> set x"
  by (auto simp: is_number_def list_all_iff isDigit_def)

lemma length_1_to_3:
  "1 \<le> length xs \<Longrightarrow> length xs \<le> 3 \<Longrightarrow>
   (\<exists>a. xs = [a]) \<or> (\<exists>a b. xs = [a, b]) \<or> (\<exists>a b c. xs = [a, b, c])"
  apply (cases xs; simp)
  subgoal for a r
    apply (cases r; simp)
    subgoal for b r2
      by (cases r2; simp)
    done
  done

lemma NewVersion_one:
  "is_number x \<Longrightarrow>
   NewVersion x = Inr \<lparr>major = parse_uint x, minor = 0, patch = 0\<rparr>"
  by (simp add: NewVersion_def splitOn_no_sep is_number_not_dot segment_def)

lemma NewVersion_two:
  "is_number x \<Longrightarrow> is_number y \<Longrightarrow>
   NewVersion (x @ CHR ''.'' # y) = Inr \<lparr>major = parse_uint x, minor = parse_uint y, patch = 0\<rparr>"
  by (simp add: NewVersion_def splitOn_no_sep splitOn_append_sep is_number_not_dot segment_def)

lemma NewVersion_three:
  "is_number x \<Longrightarrow> is_number y \<Longrightarrow> is_number z \<Longrightarrow>
   NewVersion (x @ CHR ''.'' # y @ CHR ''.'' # z) =
     Inr \<lparr>major = parse_uint x, minor = parse_uint y, patch = parse_uint z\<rparr>"
  by (simp add: NewVersion_def splitOn_no_sep splitOn_append_sep is_number_not_dot segment_def)

lemma NewVersion_ok_iff: "(\<exists>ver. NewVersion s = Inr ver) \<longleftrightarrow> well_formed_version s"
proof
  assume "\<exists>ver. NewVersion s = Inr ver"
  let ?cs = "splitOn (CHR ''.'') s"
  from \<open>\<exists>ver. NewVersion s = Inr ver\<close>
  have len: "length ?cs \<le> 3" and all: "list_all is_number ?cs"
    by (auto simp: NewVersion_def Let_def split: if_splits)
  have "1 \<le> length ?cs" by (cases ?cs) simp_all
  moreover have "s = Join ?cs ''.''" by (simp add: Join_splitOn)
  moreover from all have "\<forall>c \<in> set ?cs. c \<noteq> [] \<and> (\<forall>d \<in> set c. isDigit d)"
    by (simp add: list_all_iff is_number_def)
  ultimately show "well_formed_version s"
    unfolding well_formed_version_def using len by blast
next
  assume "well_formed_version s"
  then obtain comps where s: "s = Join comps ''.''"
    and len: "1 \<le> length comps" "length comps \<le> 3"
    and dig: "\<forall>c \<in> set comps. c \<noteq> [] \<and> (\<forall>d \<in> set c. isDigit d)"
    unfolding well_formed_version_def by blast
  from dig have ps: "\<forall>c \<in> set comps. is_number c"
    by (simp add: is_number_def list_all_iff)
  from length_1_to_3 [OF len] show "\<exists>ver. NewVersion s = Inr ver"
  proof (elim disjE exE)
    fix a assume "comps = [a]"
    then show ?thesis using s ps by (simp add: NewVersion_one)
  next
    fix a b assume "comps = [a, b]"
    then show ?thesis using s ps by (simp add: NewVersion_two)
  next
    fix a b c assume "comps = [a, b, c]"
    then show ?thesis using s ps by (simp add: NewVersion_three)
  qed
qed

lemma NewVersion_error: "NewVersion s = Inl e \<Longrightarrow> e = ErrInvalidSemVer"
  by (auto simp: NewVersion_def Let_def split: if_splits)

lemma IsValid_iff: "IsValid v \<longleftrightarrow> (\<exists>ver. parseVersion v = Inr ver)"
  by (simp add: IsValid_def parseVersion_def split: sum.splits)

lemma show_nat_0: "show_nat 0 = ''0''"
  by code_simp

lemma Version_Compare_range: "Version_Compare v w \<in> {- 1, 0, 1}"
  by (simp add: Version_Compare_def compareSegment_def)

lemma Calculate_error_iff:
  "(\<exists>e. snd (snd (Calculate c current commits)) = Some e) \<longleftrightarrow> \<not> IsValid current"
  by (auto simp: Calculate_def IsValid_iff Let_def split: sum.splits)

section \<open>Claims about the version calculator\<close>

text \<open>
  C3. For every current version string that parses to the non-negative integers
  \<open>(a, b, d)\<close> and every resolved bump other than \<open>none\<close>, \<open>Calculate\<close> returns the
  text of \<open>(a+1, 0, 0)\<close> for \<open>major\<close>, of \<open>(a, b+1, 0)\<close> for \<open>minor\<close> and of
  \<open>(a, b, d+1)\<close> for \<open>patch\<close>, written \<open>MAJOR.MINOR.PATCH\<close> and prefixed with \<open>v\<close>
  exactly when the configured format is \<open>v-prefix\<close>, whether or not the input carried a
  \<open>v\<close>; the bump is returned with it and there is no error. In particular \<open>1.2.3\<close>
  gives \<open>2.0.0\<close>, \<open>1.3.0\<close> and \<open>1.2.4\<close>.
\<close>

theorem Calculate_bump:
  assumes "parseVersion current = Inr \<lparr>major = a, minor = b, patch = d\<rparr>"
  shows "(DetermineBump c commits = BumpMajor \<longrightarrow>
            Calculate c current commits =
              ((if Format (Version c) = ''v-prefix'' then ''v'' else '''')
                 @ show_nat (a + 1) @ ''.0.0'', BumpMajor, None))
       \<and> (DetermineBump c commits = BumpMinor \<longrightarrow>
            Calculate c current commits =
              ((if Format (Version c) = ''v-prefix'' then ''v'' else '''')
                 @ show_nat a @ ''.'' @ show_nat (b + 1) @ ''.0'', BumpMinor, None))
       \<and> (DetermineBump c commits = BumpPatch \<longrightarrow>
            Calculate c current commits =
              ((if Format (Version c) = ''v-prefix'' then ''v'' else '''')
                 @ show_nat a @ ''.'' @ show_nat b @ ''.'' @ show_nat (d + 1), BumpPatch, None))
       \<and> Calculate (test_config ''semver'') ''1.2.3'' [mk_commit ''Breaking'' False]
            = (''2.0.0'', BumpMajor, None)
       \<and> Calculate (test_config ''semver'') ''1.2.3'' [mk_commit ''Feature'' False]
            = (''1.3.0'', BumpMinor, None)
       \<and> Calculate (test_config ''semver'') ''1.2.3'' [mk_commit ''Fix'' False]
            = (''1.2.4'', BumpPatch, None)"
proof (intro conjI impI)
  assume "DetermineBump c commits = BumpMajor"
  with assms show "Calculate c current commits =
      ((if Format (Version c) = ''v-prefix'' then ''v'' else '''')
         @ show_nat (a + 1) @ ''.0.0'', BumpMajor, None)"
    by (simp add: Calculate_def formatVersion_def IncMajor_def Version_String_def show_nat_0)
next
  assume "DetermineBump c commits = BumpMinor"
  with assms show "Calculate c current commits =
      ((if Format (Version c) = ''v-prefix'' then ''v'' else '''')
         @ show_nat a @ ''.'' @ show_nat (b + 1) @ ''.0'', BumpMinor, None)"
    by (simp add: Calculate_def formatVersion_def IncMinor_def Version_String_def show_nat_0
          BumpMinor_def BumpMajor_def)
next
  assume "DetermineBump c commits = BumpPatch"
  with assms show "Calculate c current commits =
      ((if Format (Version c) = ''v-prefix'' then ''v'' else '''')
         @ show_nat a @ ''.'' @ show_nat b @ ''.'' @ show_nat (d + 1), BumpPatch, None)"
    by (simp add: Calculate_def formatVersion_def IncPatch_def Version_String_def
          BumpPatch_def BumpMinor_def BumpMajor_def)
next
  show "Calculate (test_config ''semver'') ''1.2.3'' [mk_commit ''Breaking'' False]
          = (''2.0.0'', BumpMajor, None)"
    by code_simp
next
  show "Calculate (test_config ''semver'') ''1.2.3'' [mk_commit ''Feature'' False]
          = (''1.3.0'', BumpMinor, None)"
    by code_simp
next
  show "Calculate (test_config ''semver'') ''1.2.3'' [mk_commit ''Fix'' False]
          = (''1.2.4'', BumpPatch, None)"
    by code_simp
qed

theorem Calculate_bump_witness:
  "parseVersion ''v1.2.3'' = Inr \<lparr>major = 1, minor = 2, patch = 3\<rparr>
   \<and> DetermineBump (test_config ''semver'') [mk_commit ''Fix'' False] = BumpPatch
   \<and> Calculate (test_config ''semver'') ''v1.2.3'' [mk_commit ''Fix'' False]
        = (''1.2.4'', BumpPatch, None)
   \<and> DetermineBump (test_config ''v-prefix'') [mk_commit ''Feature'' False] = BumpMinor
   \<and> Calculate (test_config ''v-prefix'') ''v1.2.3'' [mk_commit ''Feature'' False]
        = (''v1.3.0'', BumpMinor, None)
   \<and> DetermineBump (test_config ''v-prefix'') [mk_commit ''Breaking'' False] = BumpMajor
   \<and> Calculate (test_config ''v-prefix'') ''v1.2.3'' [mk_commit ''Breaking'' False]
        = (''v2.0.0'', BumpMajor, None)"
proof -
  have p: "parseVersion ''v1.2.3'' = Inr \<lparr>major = 1, minor = 2, patch = 3\<rparr>"
    by code_simp
  have b1: "DetermineBump (test_config ''semver'') [mk_commit ''Fix'' False] = BumpPatch"
    by code_simp
  have b2: "DetermineBump (test_config ''v-prefix'') [mk_commit ''Feature'' False] = BumpMinor"
    by code_simp
  have b3: "DetermineBump (test_config ''v-prefix'') [mk_commit ''Breaking'' False] = BumpMajor"
    by code_simp
  have f: "Format (Version (test_config ''semver'')) = ''semver''"
    "Format (Version (test_config ''v-prefix'')) = ''v-prefix''"
    by (simp_all add: test_config_def)
  have n: "show_nat (Suc 0) = ''1''" "show_nat (Suc (Suc 0)) = ''2''"
    "show_nat 2 = ''2''" "show_nat 3 = ''3''" "show_nat 4 = ''4''"
    by code_simp+
  from Calculate_bump [OF p, of "test_config ''semver''" "[mk_commit ''Fix'' False]"] b1
  have 1: "Calculate (test_config ''semver'') ''v1.2.3'' [mk_commit ''Fix'' False]
        = (''1.2.4'', BumpPatch, None)"
    by (simp add: f n)
  from Calculate_bump [OF p, of "test_config ''v-prefix''" "[mk_commit ''Feature'' False]"] b2
  have 2: "Calculate (test_config ''v-prefix'') ''v1.2.3'' [mk_commit ''Feature'' False]
        = (''v1.3.0'', BumpMinor, None)"
    by (simp add: f n)
  from Calculate_bump [OF p, of "test_config ''v-prefix''" "[mk_commit ''Breaking'' False]"] b3
  have 3: "Calculate (test_config ''v-prefix'') ''v1.2.3'' [mk_commit ''Breaking'' False]
        = (''v2.0.0'', BumpMajor, None)"
    by (simp add: f n)
  from p b1 b2 b3 1 2 3 show ?thesis by simp
qed

text \<open>
  C4. \<open>Calculate\<close> returns an invalid-version error to its caller (an empty version text,
  bump \<open>none\<close> and the parser's error wrapped with the offending input), and not a
  default, exactly when the current-version string, after one optional leading \<open>v\<close> is
  removed, is not a well-formed dotted version of one to three decimal components; a
  text of one or two components is accepted, the missing components being zero.
\<close>

theorem Calculate_invalid_version:
  "((\<exists>e. snd (snd (Calculate c current commits)) = Some e)
      \<longleftrightarrow> \<not> well_formed_version (TrimPrefix current ''v''))
   \<and> (\<not> well_formed_version (TrimPrefix current ''v'') \<longrightarrow>
        Calculate c current commits =
          ('''', BumpNone, Some (InvalidCurrentVersion current ErrInvalidSemVer)))
   \<and> (\<forall>x. is_number x \<longrightarrow>
        parseVersion x = Inr \<lparr>major = parse_uint x, minor = 0, patch = 0\<rparr>)
   \<and> (\<forall>x y. is_number x \<and> is_number y \<longrightarrow>
        parseVersion (x @ ''.'' @ y) = Inr \<lparr>major = parse_uint x, minor = parse_uint y, patch = 0\<rparr>)"
proof (intro conjI allI impI)
  show "(\<exists>e. snd (snd (Calculate c current commits)) = Some e)
      \<longleftrightarrow> \<not> well_formed_version (TrimPrefix current ''v'')"
    by (simp add: Calculate_error_iff IsValid_iff parseVersion_def NewVersion_ok_iff)
next
  assume "\<not> well_formed_version (TrimPrefix current ''v'')"
  then have "\<not> (\<exists>ver. NewVersion (TrimPrefix current ''v'') = Inr ver)"
    by (simp add: NewVersion_ok_iff)
  then obtain e where e: "NewVersion (TrimPrefix current ''v'') = Inl e"
    by (cases "NewVersion (TrimPrefix current ''v'')") auto
  then have "e = ErrInvalidSemVer" by (rule NewVersion_error)
  with e show "Calculate c current commits =
      ('''', BumpNone, Some (InvalidCurrentVersion current ErrInvalidSemVer))"
    by (simp add: Calculate_def parseVersion_def)
next
  fix x assume x: "is_number x"
  then have "\<not> prefix ''v'' x"
    by (cases x) (auto simp: is_number_def isDigit_def)
  with x show "parseVersion x = Inr \<lparr>major = parse_uint x, minor = 0, patch = 0\<rparr>"
    by (simp add: parseVersion_def TrimPrefix_def NewVersion_one)
next
  fix x y assume xy: "is_number x \<and> is_number y"
  then have "\<not> prefix ''v'' (x @ ''.'' @ y)"
    by (cases x) (auto simp: is_number_def isDigit_def)
  with xy show "parseVersion (x @ ''.'' @ y) =
      Inr \<lparr>major = parse_uint x, minor = parse_uint y, patch = 0\<rparr>"
    by (simp add: parseVersion_def TrimPrefix_def NewVersion_two)
qed

theorem Calculate_invalid_version_witness:
  "\<not> well_formed_version (TrimPrefix ''v1.x'' ''v'')
   \<and> Calculate (test_config ''semver'') ''v1.x'' [mk_commit ''Fix'' False]
        = ('''', BumpNone, Some (InvalidCurrentVersion ''v1.x'' ErrInvalidSemVer))
   \<and> is_number ''1'' \<and> is_number ''2''
   \<and> parseVersion ''1'' = Inr \<lparr>major = 1, minor = 0, patch = 0\<rparr>
   \<and> parseVersion ''1.2'' = Inr \<lparr>major = 1, minor = 2, patch = 0\<rparr>
   \<and> Calculate (test_config ''semver'') ''1.2'' [mk_commit ''Fix'' False]
        = (''1.2.1'', BumpPatch, None)"
proof -
  let ?c = "test_config ''semver''" and ?cs = "[mk_commit ''Fix'' False]"
  note spec = Calculate_invalid_version [of ?c _ ?cs]
  have e: "snd (snd (Calculate ?c ''v1.x'' ?cs)) = Some (InvalidCurrentVersion ''v1.x'' ErrInvalidSemVer)"
    by code_simp
  with spec [of "''v1.x''"] have w: "\<not> well_formed_version (TrimPrefix ''v1.x'' ''v'')"
    by blast
  with spec [of "''v1.x''"] have 1: "Calculate ?c ''v1.x'' ?cs
        = ('''', BumpNone, Some (InvalidCurrentVersion ''v1.x'' ErrInvalidSemVer))"
    by blast
  have n: "is_number ''1''" "is_number ''2''" by code_simp+
  have u: "parse_uint ''1'' = 1" "parse_uint ''2'' = 2" by code_simp+
  from spec [of "''1''"] n have 2: "parseVersion ''1'' = Inr \<lparr>major = 1, minor = 0, patch = 0\<rparr>"
    using u by (metis (no_types, lifting))
  from spec [of "''1''"] n have "parseVersion (''1'' @ ''.'' @ ''2'') =
      Inr \<lparr>major = parse_uint ''1'', minor = parse_uint ''2'', patch = 0\<rparr>"
    by blast
  then have 3: "parseVersion ''1.2'' = Inr \<lparr>major = 1, minor = 2, patch = 0\<rparr>"
    using u by simp
  have 4: "Calculate ?c ''1.2'' ?cs = (''1.2.1'', BumpPatch, None)" by code_simp
  from w 1 n 2 3 4 show ?thesis by simp
qed

text \<open>
  C7. For every valid current version string and every configured format, when the
  resolved bump is \<open>none\<close>, \<open>Calculate\<close> returns the input string itself (verbatim, not
  parsed and printed again), paired with bump \<open>none\<close> and no error.
\<close>

theorem Calculate_none:
  assumes "IsValid current" and "DetermineBump c commits = BumpNone"
  shows "Calculate c current commits = (current, BumpNone, None)"
proof -
  from assms(1) obtain ver where "parseVersion current = Inr ver"
    by (auto simp: IsValid_iff)
  with assms(2) show ?thesis
    by (simp add: Calculate_def BumpNone_def BumpMajor_def BumpMinor_def BumpPatch_def)
qed

theorem Calculate_none_witness:
  "IsValid ''v1.2''
   \<and> DetermineBump (test_config ''semver'') [mk_commit ''Docs'' False] = BumpNone
   \<and> Calculate (test_config ''semver'') ''v1.2'' [mk_commit ''Docs'' False]
        = (''v1.2'', BumpNone, None)"
proof -
  have v: "IsValid ''v1.2''" by code_simp
  have b: "DetermineBump (test_config ''semver'') [mk_commit ''Docs'' False] = BumpNone"
    by code_simp
  from Calculate_none [OF v b] v b show ?thesis by simp
qed

text \<open>
  C10. \<open>Compare\<close> is not total over strings: whenever either argument, after one leading
  \<open>v\<close> is removed, fails version parsing, it returns an error together with the value
  \<open>0\<close>; and it returns a comparison result in \<open>{-1, 0, 1}\<close> with no error exactly when
  both arguments are valid versions.
\<close>

theorem Compare_error:
  "(\<not> IsValid v1 \<or> \<not> IsValid v2 \<longrightarrow> (\<exists>e. Compare v1 v2 = (0, Some e)))
   \<and> ((\<exists>r \<in> {- 1, 0, 1}. Compare v1 v2 = (r, None)) \<longleftrightarrow> IsValid v1 \<and> IsValid v2)"
  using Version_Compare_range
  by (auto simp: Compare_def IsValid_def split: sum.splits)

theorem Compare_error_witness:
  "\<not> IsValid ''invalid'' \<and> IsValid ''1.2.3'' \<and> IsValid ''v1.2.4''
   \<and> Compare ''1.2.3'' ''invalid'' = (0, Some (InvalidVersionV2 ErrInvalidSemVer))
   \<and> Compare ''invalid'' ''1.2.3'' = (0, Some (InvalidVersionV1 ErrInvalidSemVer))
   \<and> Compare ''1.2.3'' ''v1.2.4'' = (- 1, None)"
proof -
  have i: "\<not> IsValid ''invalid''" "IsValid ''1.2.3''" "IsValid ''v1.2.4''" by code_simp+
  have c: "Compare ''1.2.3'' ''invalid'' = (0, Some (InvalidVersionV2 ErrInvalidSemVer))"
    "Compare ''invalid'' ''1.2.3'' = (0, Some (InvalidVersionV1 ErrInvalidSemVer))"
    "Compare ''1.2.3'' ''v1.2.4'' = (- 1, None)"
    by code_simp+
  from Compare_error [of "''1.2.3''" "''invalid''"] Compare_error [of "''1.2.3''" "''v1.2.4''"]
    i c show ?thesis by simp
qed

section \<open>Properties of the string functions\<close>

lemma space_runes_bytes: "w \<in> set space_runes \<Longrightarrow> w \<noteq> [] \<and> (\<forall>c \<in> set w. space_byte c)"
  by (auto simp: space_byte_def space_runes_def)

lemma find_prefix_None: "find (\<lambda>w. prefix w s) space_runes = None \<longleftrightarrow> (\<forall>w \<in> set space_runes. \<not> prefix w s)"
  by (auto simp: find_None_iff)

lemma find_suffix_None: "find (\<lambda>w. suffix w s) space_runes = None \<longleftrightarrow> (\<forall>w \<in> set space_runes. \<not> suffix w s)"
  by (auto simp: find_None_iff)

lemma TrimLeftSpace_decomp: "\<exists>l. s = l @ TrimLeftSpace s \<and> (\<forall>c \<in> set l. space_byte c)"
proof (induction s rule: TrimLeftSpace.induct)
  case (1 s)
  show ?case
  proof (cases "find (\<lambda>w. prefix w s) space_runes")
    case None
    then show ?thesis by (simp add: TrimLeftSpace.simps [of s])
  next
    case (Some w)
    then have w: "w \<in> set space_runes" "prefix w s" by (auto simp: find_Some_iff)
    from 1 [OF Some] obtain l where l: "drop (length w) s = l @ TrimLeftSpace (drop (length w) s)"
      "\<forall>c \<in> set l. space_byte c" by blast
    from w(2) have e1: "s = w @ drop (length w) s" by (auto simp: prefix_def)
    have e2: "TrimLeftSpace s = TrimLeftSpace (drop (length w) s)"
      by (simp add: TrimLeftSpace.simps [of s] Some)
    have "s = (w @ l) @ TrimLeftSpace s"
      using e1 l(1) e2 by (metis append_assoc)
    moreover have "\<forall>c \<in> set (w @ l). space_byte c"
      using l(2) space_runes_bytes [OF w(1)] by auto
    ultimately show ?thesis by blast
  qed
qed

lemma TrimRightSpace_decomp: "\<exists>r. s = TrimRightSpace s @ r \<and> (\<forall>c \<in> set r. space_byte c)"
proof (induction s rule: TrimRightSpace.induct)
  case (1 s)
  show ?case
  proof (cases "find (\<lambda>w. suffix w s) space_runes")
    case None
    then show ?thesis by (simp add: TrimRightSpace.simps [of s])
  next
    case (Some w)
    then have w: "w \<in> set space_runes" "suffix w s" by (auto simp: find_Some_iff)
    let ?t = "take (length s - length w) s"
    from 1 [OF Some] obtain r where r: "?t = TrimRightSpace ?t @ r"
      "\<forall>c \<in> set r. space_byte c" by blast
    from w(2) have e1: "s = ?t @ w" by (auto simp: suffix_def)
    have e2: "TrimRightSpace s = TrimRightSpace ?t"
      by (simp add: TrimRightSpace.simps [of s] Some)
    have "s = TrimRightSpace s @ (r @ w)"
      using e1 r(1) e2 by (metis append_assoc)
    moreover have "\<forall>c \<in> set (r @ w). space_byte c"
      using r(2) space_runes_bytes [OF w(1)] by auto
    ultimately show ?thesis by blast
  qed
qed

lemma TrimSpace_decomp:
  "\<exists>l r. s = l @ TrimSpace s @ r \<and> (\<forall>c \<in> set l. space_byte c) \<and> (\<forall>c \<in> set r. space_byte c)"
proof -
  obtain l where l: "s = l @ TrimLeftSpace s" "\<forall>c \<in> set l. space_byte c"
    using TrimLeftSpace_decomp by blast
  obtain r where r: "TrimLeftSpace s = TrimSpace s @ r" "\<forall>c \<in> set r. space_byte c"
    unfolding TrimSpace_def using TrimRightSpace_decomp by blast
  from l(1) r(1) have "s = l @ TrimSpace s @ r" by simp
  with l(2) r(2) show ?thesis by blast
qed

lemma TrimLeftSpace_no_leading: "w \<in> set space_runes \<Longrightarrow> \<not> prefix w (TrimLeftSpace s)"
proof (induction s rule: TrimLeftSpace.induct)
  case (1 s)
  show ?case
  proof (cases "find (\<lambda>w. prefix w s) space_runes")
    case None
    then have "TrimLeftSpace s = s" by (simp add: TrimLeftSpace.simps [of s])
    with None "1.prems" show ?thesis by (simp add: find_prefix_None)
  next
    case (Some v)
    then show ?thesis using 1 by (simp add: TrimLeftSpace.simps [of s])
  qed
qed

lemma TrimSpace_no_leading: "w \<in> set space_runes \<Longrightarrow> \<not> prefix w (TrimSpace s)"
proof
  assume w: "w \<in> set space_runes" and p: "prefix w (TrimSpace s)"
  obtain r where "TrimLeftSpace s = TrimSpace s @ r"
    unfolding TrimSpace_def using TrimRightSpace_decomp by blast
  with p have "prefix w (TrimLeftSpace s)" by (metis prefix_prefix)
  with TrimLeftSpace_no_leading [OF w] show False by blast
qed

lemma TrimLeftSpace_id: "(\<forall>w \<in> set space_runes. \<not> prefix w s) \<Longrightarrow> TrimLeftSpace s = s"
  by (simp add: TrimLeftSpace.simps [of s] find_prefix_None [symmetric])

lemma TrimRightSpace_id: "(\<forall>w \<in> set space_runes. \<not> suffix w s) \<Longrightarrow> TrimRightSpace s = s"
  by (simp add: TrimRightSpace.simps [of s] find_suffix_None [symmetric])

lemma TrimLeftSpace_hd: "s \<noteq> [] \<Longrightarrow> \<not> space_byte (hd s) \<Longrightarrow> TrimLeftSpace s = s"
proof (rule TrimLeftSpace_id, rule ballI, rule notI)
  fix w assume "s \<noteq> []" "\<not> space_byte (hd s)" "w \<in> set space_runes" "prefix w s"
  then show False
    using space_runes_bytes [of w] by (cases w; cases s) auto
qed

lemma TrimRightSpace_last: "s \<noteq> [] \<Longrightarrow> \<not> space_byte (last s) \<Longrightarrow> TrimRightSpace s = s"
proof (rule TrimRightSpace_id, rule ballI, rule notI)
  fix w assume a: "s \<noteq> []" "\<not> space_byte (last s)" "w \<in> set space_runes" "suffix w s"
  from a(3) have "w \<noteq> []" "space_byte (last w)" using space_runes_bytes [of w] by auto
  moreover from a(4) \<open>w \<noteq> []\<close> have "last s = last w" by (auto simp: suffix_def)
  ultimately show False using a(2) by simp
qed

lemma TrimRightSpace_length: "length (TrimRightSpace s) \<le> length s"
  using TrimRightSpace_decomp [of s] by (metis length_append le_add1)

lemma TrimRightSpace_fixed:
  assumes "TrimRightSpace s = s" and "w \<in> set space_runes" shows "\<not> suffix w s"
proof
  assume sf: "suffix w s"
  with assms(2) obtain v where v: "find (\<lambda>w. suffix w s) space_runes = Some v"
    by (cases "find (\<lambda>w. suffix w s) space_runes") (auto simp: find_suffix_None)
  then have "v \<in> set space_runes" "suffix v s" by (auto simp: find_Some_iff)
  then have "v \<noteq> []" "length v \<le> length s" using space_runes_bytes suffix_length_le by blast+
  then have "length (take (length s - length v) s) < length s" by (cases v) auto
  moreover have "TrimRightSpace s = TrimRightSpace (take (length s - length v) s)"
    by (simp add: TrimRightSpace.simps [of s] v)
  ultimately have "length (TrimRightSpace s) < length s"
    using TrimRightSpace_length [of "take (length s - length v) s"] by simp
  with assms(1) show False by simp
qed

lemma Contains_iff: "Contains s sub \<longleftrightarrow> (\<exists>ps ss. s = ps @ sub @ ss)"
proof (induction s)
  case Nil
  then show ?case by auto
next
  case (Cons c cs)
  show ?case
  proof
    assume "Contains (c # cs) sub"
    then consider "prefix sub (c # cs)" | "Contains cs sub" by auto
    then show "\<exists>ps ss. c # cs = ps @ sub @ ss"
    proof cases
      case 1
      then obtain ss where "c # cs = sub @ ss" by (auto simp: prefix_def)
      then have "c # cs = [] @ sub @ ss" by simp
      then show ?thesis by blast
    next
      case 2
      with Cons obtain ps ss where "cs = ps @ sub @ ss" by blast
      then have "c # cs = (c # ps) @ sub @ ss" by simp
      then show ?thesis by blast
    qed
  next
    assume "\<exists>ps ss. c # cs = ps @ sub @ ss"
    then obtain ps ss where e: "c # cs = ps @ sub @ ss" by blast
    show "Contains (c # cs) sub"
    proof (cases ps)
      case Nil
      with e have "prefix sub (c # cs)" by (simp add: prefix_def)
      then show ?thesis by simp
    next
      case (Cons p ps')
      with e have "cs = ps' @ sub @ ss" by simp
      with Cons.IH show ?thesis by auto
    qed
  qed
qed

lemma Contains_strip_left:
  assumes "Contains (l @ t) sub" and "\<forall>c \<in> set l. space_byte c"
    and "sub \<noteq> []" and "\<not> space_byte (hd sub)"
  shows "Contains t sub"
proof -
  from assms(1) obtain ps ss where e: "l @ t = ps @ sub @ ss" by (auto simp: Contains_iff)
  with append_eq_append_conv2 [of l t ps "sub @ ss"]
  consider us where "l = ps @ us" "us @ t = sub @ ss" | us where "l @ us = ps" "t = us @ sub @ ss"
    by blast
  then show ?thesis
  proof cases
    case 1
    show ?thesis
    proof (cases us)
      case Nil
      with 1 have "t = [] @ sub @ ss" by simp
      then show ?thesis unfolding Contains_iff by blast
    next
      case (Cons u us')
      with 1(2) assms(3) have "hd sub = u" by (cases sub) auto
      moreover from 1(1) Cons have "u \<in> set l" by simp
      ultimately show ?thesis using assms(2,4) by blast
    qed
  next
    case 2
    then show ?thesis unfolding Contains_iff by blast
  qed
qed

lemma Contains_strip_right:
  assumes "Contains (t @ r) sub" and "\<forall>c \<in> set r. space_byte c"
    and "sub \<noteq> []" and "\<not> space_byte (last sub)"
  shows "Contains t sub"
proof -
  from assms(1) obtain ps ss where e: "t @ r = (ps @ sub) @ ss" by (auto simp: Contains_iff)
  with append_eq_append_conv2 [of t r "ps @ sub" ss]
  consider us where "t = (ps @ sub) @ us" "us @ r = ss" | us where "t @ us = ps @ sub" "r = us @ ss"
    by blast
  then show ?thesis
  proof cases
    case 1
    then have "t = ps @ sub @ us" by simp
    then show ?thesis unfolding Contains_iff by blast
  next
    case 2
    show ?thesis
    proof (cases us rule: rev_cases)
      case Nil
      with 2 have "t = ps @ sub @ []" by simp
      then show ?thesis unfolding Contains_iff by blast
    next
      case (snoc us' u)
      with 2(1) assms(3) have "last sub = u"
        by (metis append_assoc last_appendR last_snoc snoc_eq_iff_butlast)
      moreover from 2(2) snoc have "u \<in> set r" by simp
      ultimately show ?thesis using assms(2,4) by blast
    qed
  qed
qed

lemma Contains_TrimSpace:
  assumes "sub \<noteq> []" and "\<not> space_byte (hd sub)" and "\<not> space_byte (last sub)"
  shows "Contains (TrimSpace s) sub \<longleftrightarrow> Contains s sub"
proof -
  obtain l r where d: "s = l @ TrimSpace s @ r" "\<forall>c \<in> set l. space_byte c" "\<forall>c \<in> set r. space_byte c"
    using TrimSpace_decomp by blast
  show ?thesis
  proof
    assume "Contains (TrimSpace s) sub"
    then obtain ps ss where "TrimSpace s = ps @ sub @ ss" by (auto simp: Contains_iff)
    with d(1) have "s = (l @ ps) @ sub @ (ss @ r)" by simp
    then show "Contains s sub" unfolding Contains_iff by blast
  next
    assume "Contains s sub"
    with d(1) have "Contains (l @ (TrimSpace s @ r)) sub" by simp
    then have "Contains (TrimSpace s @ r) sub"
      using d(2) assms(1,2) by (rule Contains_strip_left)
    then show "Contains (TrimSpace s) sub"
      using d(3) assms(1,3) by (rule Contains_strip_right)
  qed
qed

lemma Breaking_not_space:
  "\<not> space_byte (CHR ''B'')" "\<not> space_byte (CHR ''g'')" "\<not> space_byte (CHR ''G'')"
  by (simp_all add: space_byte_def space_runes_def)

lemma Contains_TrimSpace_Breaking:
  "Contains (TrimSpace s) ''Breaking'' = Contains s ''Breaking''"
  "Contains (TrimSpace s) ''BREAKING'' = Contains s ''BREAKING''"
  by (rule Contains_TrimSpace; simp add: Breaking_not_space)+

section \<open>Properties of the parser\<close>

lemma try_patterns_None:
  "(\<forall>p \<in> set ps. FindStringSubmatch p msg = None) \<Longrightarrow> try_patterns ps msg c = None"
  by (induction ps) auto

lemma SplitN2_colon:
  "sep \<notin> set before \<Longrightarrow> SplitN2 (before @ sep # after) sep = [before, after]"
  by (induction before) (auto simp: SplitN2_def)

lemma SplitN2_none: "sep \<notin> set s \<Longrightarrow> SplitN2 s sep = [s]"
  by (simp add: SplitN2_def)

lemma suffix_single: "suffix [c] s \<longleftrightarrow> s \<noteq> [] \<and> last s = c"
  by (cases s rule: rev_cases) (auto simp: suffix_def)

lemma TrimSuffix_single: "suffix [c] s \<Longrightarrow> TrimSuffix s [c] = butlast s"
  by (simp add: TrimSuffix_def butlast_conv_take)

lemma try_patterns_first:
  "(\<forall>q \<in> set ps. FindStringSubmatch q msg = None) \<Longrightarrow> FindStringSubmatch p msg = Some m \<Longrightarrow>
   try_patterns (ps @ p # qs) msg c = Some (apply_matches c (SubexpNames p) m)"
  by (induction ps) auto

lemma anchored_end_rest:
  "anchored_end re \<Longrightarrow> (r, g') \<in> set (match re st) \<Longrightarrow> r = []"
proof (induction re arbitrary: st r g')
  case (Seq a b)
  obtain s g where st: "st = (s, g)" by (cases st)
  from Seq.prems(2) obtain st' where "(r, g') \<in> set (match b st')"
    by (auto simp: st)
  with Seq.IH(2) Seq.prems(1) show ?case by simp
next
  case EndText
  then show ?case by (cases st) (auto split: if_splits)
qed simp_all

lemma FindStringSubmatch_whole:
  assumes "anchored_end re" and "FindStringSubmatch re s = Some m"
  shows "hd m = s"
proof -
  from assms(2) obtain r g rest where m: "match re (s, Map.empty) = (r, g) # rest"
    and hd: "hd m = take (length s - length r) s"
    by (auto simp: FindStringSubmatch_def split: list.splits)
  from m have "(r, g) \<in> set (match re (s, Map.empty))" by simp
  with assms(1) have "r = []" by (rule anchored_end_rest)
  with hd show ?thesis by simp
qed

lemma patterns_anchored: "p \<in> set patterns \<Longrightarrow> anchored_end p"
  by (auto simp: patterns_def pattern1_def pattern2_def pattern3_def pattern4_def)

section \<open>Claims about the parser\<close>

text \<open>
  C5. The parser tries its four patterns, each anchored to the whole message, in the
  fixed order of the list \<open>patterns\<close>, and the first that matches decides the result:
  when the patterns before \<open>p\<close> do not match the trimmed message and \<open>p\<close> does, the
  commit is filled from the groups of \<open>p\<close>, and the match is the whole message. In
  particular \<open>B-1(x,y): <Fix> msg\<close> is matched by the first pattern (board and wrapped
  type) and yields type \<open>Fix\<close>, board \<open>B-1\<close>, scope \<open>x,y\<close> and description \<open>msg\<close>.
\<close>

theorem Parse_priority:
  "patterns = [pattern1, pattern2, pattern3, pattern4]
   \<and> (patterns = ps @ p # qs
        \<and> (\<forall>q \<in> set ps. FindStringSubmatch q (TrimSpace raw) = None)
        \<and> FindStringSubmatch p (TrimSpace raw) = Some m
       \<longrightarrow> Parse raw = (apply_matches (scanned raw (TrimSpace raw)) (SubexpNames p) m, None)
           \<and> hd m = TrimSpace raw)
   \<and> FindStringSubmatch pattern1 ''B-1(x,y): <Fix> msg''
       = Some [''B-1(x,y): <Fix> msg'', ''B-1'', ''x,y'', ''Fix'', ''msg'']
   \<and> Parse ''B-1(x,y): <Fix> msg'' =
       (\<lparr>Hash = '''', Message = ''B-1(x,y): <Fix> msg'', Type = ''Fix'', Scope = ''x,y'',
         Board = ''B-1'', Description = ''msg'', ForceMajor = False\<rparr>, None)"
proof (intro conjI impI)
  show "patterns = [pattern1, pattern2, pattern3, pattern4]" by (simp add: patterns_def)
next
  assume h: "patterns = ps @ p # qs
        \<and> (\<forall>q \<in> set ps. FindStringSubmatch q (TrimSpace raw) = None)
        \<and> FindStringSubmatch p (TrimSpace raw) = Some m"
  then have e: "patterns = ps @ p # qs"
    and n: "\<forall>q \<in> set ps. FindStringSubmatch q (TrimSpace raw) = None"
    and f: "FindStringSubmatch p (TrimSpace raw) = Some m" by blast+
  have "try_patterns patterns (TrimSpace raw) (scanned raw (TrimSpace raw))
      = Some (apply_matches (scanned raw (TrimSpace raw)) (SubexpNames p) m)"
    unfolding e using n f by (rule try_patterns_first)
  then show "Parse raw = (apply_matches (scanned raw (TrimSpace raw)) (SubexpNames p) m, None)"
    by (simp add: Parse_def Let_def)
  have "p \<in> set patterns" unfolding e by simp
  then have "anchored_end p" by (rule patterns_anchored)
  then show "hd m = TrimSpace raw" using f by (rule FindStringSubmatch_whole)
next
  show "FindStringSubmatch pattern1 ''B-1(x,y): <Fix> msg''
       = Some [''B-1(x,y): <Fix> msg'', ''B-1'', ''x,y'', ''Fix'', ''msg'']"
    by code_simp
next
  show "Parse ''B-1(x,y): <Fix> msg'' =
       (\<lparr>Hash = '''', Message = ''B-1(x,y): <Fix> msg'', Type = ''Fix'', Scope = ''x,y'',
         Board = ''B-1'', Description = ''msg'', ForceMajor = False\<rparr>, None)"
    by code_simp
qed

theorem Parse_priority_witness:
  "patterns = [pattern1] @ pattern2 # [pattern3, pattern4]
   \<and> FindStringSubmatch pattern1 (TrimSpace ''U-1234(user): Feature some feat'') = None
   \<and> FindStringSubmatch pattern2 (TrimSpace ''U-1234(user): Feature some feat'')
       = Some [''U-1234(user): Feature some feat'', ''U-1234'', ''user'', ''Feature'', ''some feat'']
   \<and> Parse ''U-1234(user): Feature some feat'' =
       (\<lparr>Hash = '''', Message = ''U-1234(user): Feature some feat'', Type = ''Feature'',
         Scope = ''user'', Board = ''U-1234'', Description = ''some feat'',
         ForceMajor = False\<rparr>, None)"
proof -
  let ?raw = "''U-1234(user): Feature some feat''"
  let ?m = "[''U-1234(user): Feature some feat'', ''U-1234'', ''user'', ''Feature'', ''some feat'']"
  have t: "TrimSpace ?raw = ?raw" by code_simp
  have p: "patterns = [pattern1] @ pattern2 # [pattern3, pattern4]" by (simp add: patterns_def)
  have 1: "FindStringSubmatch pattern1 ?raw = None" by code_simp
  have 2: "FindStringSubmatch pattern2 ?raw = Some ?m" by code_simp
  have a: "apply_matches (scanned ?raw ?raw) (SubexpNames pattern2) ?m =
       \<lparr>Hash = '''', Message = ?raw, Type = ''Feature'',
         Scope = ''user'', Board = ''U-1234'', Description = ''some feat'',
         ForceMajor = False\<rparr>" by code_simp
  from Parse_priority [of "[pattern1]" pattern2 "[pattern3, pattern4]" ?raw ?m] p 1 2
  have "Parse ?raw = (apply_matches (scanned ?raw ?raw) (SubexpNames pattern2) ?m, None)"
    by (simp add: t)
  with a p 1 2 t show ?thesis by simp
qed

text \<open>
  C6. For every message that none of the four patterns matches, \<open>Parse\<close> still succeeds.
  If the trimmed message contains a colon, the type is the trimmed text before the
  first colon with one trailing \<open>!\<close> removed (and \<open>ForceMajor\<close> set when one is
  removed), and the description is the trimmed text after the first colon. If it
  contains no colon, the type is empty and the commit carries only what the scan for
  \<open>Breaking\<close> set.
\<close>

theorem Parse_fallback_spec:
  assumes "\<forall>p \<in> set patterns. FindStringSubmatch p (TrimSpace raw) = None"
  shows "snd (Parse raw) = None
    \<and> (\<forall>before after. TrimSpace raw = before @ '':'' @ after \<and> CHR '':'' \<notin> set before \<longrightarrow>
         Type (fst (Parse raw)) =
           (if suffix ''!'' (TrimSpace before) then butlast (TrimSpace before)
            else TrimSpace before)
       \<and> Description (fst (Parse raw)) = TrimSpace after
       \<and> ForceMajor (fst (Parse raw)) =
           (Contains (TrimSpace raw) ''Breaking'' \<or> Contains (TrimSpace raw) ''BREAKING''
            \<or> suffix ''!'' (TrimSpace before))
       \<and> Scope (fst (Parse raw)) = '''' \<and> Board (fst (Parse raw)) = ''''
       \<and> Message (fst (Parse raw)) = raw)
    \<and> (CHR '':'' \<notin> set (TrimSpace raw) \<longrightarrow>
         fst (Parse raw) =
           \<lparr>Hash = '''', Message = raw, Type = '''', Scope = '''', Board = '''',
            Description = '''',
            ForceMajor = (Contains (TrimSpace raw) ''Breaking''
                          \<or> Contains (TrimSpace raw) ''BREAKING'')\<rparr>)"
proof -
  let ?msg = "TrimSpace raw"
  from assms have none: "try_patterns patterns ?msg (scanned raw ?msg) = None"
    by (rule try_patterns_None)
  then have P: "Parse raw = (fallback (scanned raw ?msg) ?msg, None)"
    by (simp add: Parse_def Let_def)
  have 1: "snd (Parse raw) = None" by (simp add: P)
  have 2: "Type (fst (Parse raw)) =
           (if suffix ''!'' (TrimSpace before) then butlast (TrimSpace before)
            else TrimSpace before)
       \<and> Description (fst (Parse raw)) = TrimSpace after
       \<and> ForceMajor (fst (Parse raw)) =
           (Contains ?msg ''Breaking'' \<or> Contains ?msg ''BREAKING''
            \<or> suffix ''!'' (TrimSpace before))
       \<and> Scope (fst (Parse raw)) = '''' \<and> Board (fst (Parse raw)) = ''''
       \<and> Message (fst (Parse raw)) = raw"
    if "?msg = before @ '':'' @ after \<and> CHR '':'' \<notin> set before" for before after
  proof -
    from that have "SplitN2 ?msg (CHR '':'') = [before, after]"
      by (simp add: SplitN2_colon)
    then show ?thesis
      by (simp add: P fallback_def scanned_def Let_def HasSuffix_def TrimSuffix_single)
  qed
  have 3: "fst (Parse raw) =
           \<lparr>Hash = '''', Message = raw, Type = '''', Scope = '''', Board = '''',
            Description = '''',
            ForceMajor = (Contains ?msg ''Breaking'' \<or> Contains ?msg ''BREAKING'')\<rparr>"
    if "CHR '':'' \<notin> set ?msg"
    using that by (simp add: P fallback_def SplitN2_none scanned_def)
  from 1 2 3 show ?thesis by blast
qed

theorem Parse_fallback_spec_witness:
  "(FindStringSubmatch pattern1 (TrimSpace ''  fix bug!: something  '') = None
    \<and> FindStringSubmatch pattern2 (TrimSpace ''  fix bug!: something  '') = None
    \<and> FindStringSubmatch pattern3 (TrimSpace ''  fix bug!: something  '') = None
    \<and> FindStringSubmatch pattern4 (TrimSpace ''  fix bug!: something  '') = None)
   \<and> TrimSpace ''  fix bug!: something  '' = ''fix bug!'' @ '':'' @ '' something''
   \<and> Parse ''  fix bug!: something  '' =
       (\<lparr>Hash = '''', Message = ''  fix bug!: something  '', Type = ''fix bug'', Scope = '''',
         Board = '''', Description = ''something'', ForceMajor = True\<rparr>, None)
   \<and> (FindStringSubmatch pattern1 (TrimSpace ''Invalid commit message without colon'') = None
    \<and> FindStringSubmatch pattern2 (TrimSpace ''Invalid commit message without colon'') = None
    \<and> FindStringSubmatch pattern3 (TrimSpace ''Invalid commit message without colon'') = None
    \<and> FindStringSubmatch pattern4 (TrimSpace ''Invalid commit message without colon'') = None)
   \<and> Type (fst (Parse ''Invalid commit message without colon'')) = ''''"
proof -
  let ?a = "''  fix bug!: something  ''" and ?b = "''Invalid commit message without colon''"
  have ta: "TrimSpace ?a = ''fix bug!: something''" by code_simp
  have tb: "TrimSpace ?b = ?b" by code_simp
  have na: "FindStringSubmatch pattern1 ''fix bug!: something'' = None"
    "FindStringSubmatch pattern2 ''fix bug!: something'' = None"
    "FindStringSubmatch pattern3 ''fix bug!: something'' = None"
    "FindStringSubmatch pattern4 ''fix bug!: something'' = None"
    by code_simp+
  have nb: "FindStringSubmatch pattern1 ?b = None"
    "FindStringSubmatch pattern2 ?b = None"
    "FindStringSubmatch pattern3 ?b = None"
    "FindStringSubmatch pattern4 ?b = None"
    by code_simp+
  have ha: "\<forall>p \<in> set patterns. FindStringSubmatch p (TrimSpace ?a) = None"
    by (simp add: patterns_def ta na)
  have hb: "\<forall>p \<in> set patterns. FindStringSubmatch p (TrimSpace ?b) = None"
    by (simp add: patterns_def tb nb)
  have pa: "Parse ?a = (\<lparr>Hash = '''', Message = ?a, Type = ''fix bug'', Scope = '''',
         Board = '''', Description = ''something'', ForceMajor = True\<rparr>, None)"
    by code_simp
  have cb: "CHR '':'' \<notin> set (TrimSpace ?b)" by (simp add: tb)
  from Parse_fallback_spec [OF hb] cb have "Type (fst (Parse ?b)) = ''''" by simp
  moreover from Parse_fallback_spec [OF ha] have "snd (Parse ?a) = None" by blast
  ultimately show ?thesis using ta tb na nb pa by simp
qed

section \<open>Properties of the matcher and of the patterns\<close>

lemma many_set:
  "r \<in> set (many P s) \<longleftrightarrow> (\<exists>ys. ys \<noteq> [] \<and> (\<forall>y \<in> set ys. P y) \<and> s = ys @ r)"
proof (induction s arbitrary: r)
  case Nil
  then show ?case by simp
next
  case (Cons c cs)
  show ?case
  proof (cases "P c")
    case True
    show ?thesis
    proof
      assume "r \<in> set (many P (c # cs))"
      with True have "r \<in> set (many P cs) \<or> r = cs" by auto
      then show "\<exists>ys. ys \<noteq> [] \<and> (\<forall>y \<in> set ys. P y) \<and> c # cs = ys @ r"
      proof
        assume "r \<in> set (many P cs)"
        with Cons obtain ys where "ys \<noteq> []" "\<forall>y \<in> set ys. P y" "cs = ys @ r" by blast
        with True have "c # ys \<noteq> [] \<and> (\<forall>y \<in> set (c # ys). P y) \<and> c # cs = (c # ys) @ r" by simp
        then show ?thesis by blast
      next
        assume "r = cs"
        with True have "[c] \<noteq> [] \<and> (\<forall>y \<in> set [c]. P y) \<and> c # cs = [c] @ r" by simp
        then show ?thesis by blast
      qed
    next
      assume "\<exists>ys. ys \<noteq> [] \<and> (\<forall>y \<in> set ys. P y) \<and> c # cs = ys @ r"
      then obtain ys where ys: "ys \<noteq> []" "\<forall>y \<in> set ys. P y" "c # cs = ys @ r" by blast
      then obtain ys' where y': "ys = c # ys'" "cs = ys' @ r" by (cases ys) auto
      show "r \<in> set (many P (c # cs))"
      proof (cases "ys' = []")
        case True
        with y' \<open>P c\<close> show ?thesis by simp
      next
        case False
        with ys(2) y' have "r \<in> set (many P cs)" using Cons by auto
        with \<open>P c\<close> show ?thesis by simp
      qed
    qed
  next
    case False
    then show ?thesis by (auto simp: Cons_eq_append_conv)
  qed
qed

lemma match_frame:
  "(r, g') \<in> set (match re (s, g)) \<Longrightarrow> n \<notin> set (group_names re) \<Longrightarrow> g' n = g n"
proof (induction re arbitrary: s g r g')
  case (Str w)
  then show ?case by (auto split: if_splits)
next
  case (Plus P)
  then show ?case by auto
next
  case (Star P)
  then show ?case by auto
next
  case (Seq a b)
  from Seq.prems(1) obtain s1 g1 where 1: "(s1, g1) \<in> set (match a (s, g))"
    and 2: "(r, g') \<in> set (match b (s1, g1))" by auto
  from Seq.prems(2) have "n \<notin> set (group_names a)" "n \<notin> set (group_names b)" by auto
  with 1 2 Seq.IH show ?case by metis
next
  case (Opt a)
  then show ?case by auto
next
  case (Group m a)
  from Group.prems(1) obtain g1 where 1: "(r, g1) \<in> set (match a (s, g))"
    and 2: "g' = g1(m \<mapsto> take (length s - length r) s)" by auto
  from Group.prems(2) have "n \<noteq> m" "n \<notin> set (group_names a)" by auto
  with 1 2 Group.IH show ?case by auto
next
  case EndText
  then show ?case by (auto split: if_splits)
qed

lemma match_SeqE:
  assumes "(r, g) \<in> set (match (Seq a b) (s, g0))"
  obtains r1 g1 where "(r1, g1) \<in> set (match a (s, g0))" "(r, g) \<in> set (match b (r1, g1))"
  using assms by auto

lemma FindStringSubmatch_Some:
  assumes "FindStringSubmatch re s = Some m"
  obtains r g where "(r, g) \<in> set (match re (s, Map.empty))"
    and "m = take (length s - length r) s
             # map (\<lambda>n. case g n of Some v \<Rightarrow> v | None \<Rightarrow> '''') (group_names re)"
  using assms by (auto simp: FindStringSubmatch_def split: list.splits)

lemma word_not_space: "cls_word c \<Longrightarrow> \<not> space_byte c"
  by (auto simp: space_byte_def space_runes_def cls_word_def cls_digit_def cls_upper_def cls_lower_def)

lemma TrimSpace_word:
  assumes "pre \<noteq> []" and "\<forall>c \<in> set pre. cls_word c"
  shows "TrimSpace pre = pre"
proof -
  from assms have "\<not> space_byte (hd pre)" "\<not> space_byte (last pre)"
    using word_not_space by auto
  with assms(1) show ?thesis
    by (simp add: TrimSpace_def TrimLeftSpace_hd TrimRightSpace_last)
qed

lemma pattern4_results:
  assumes "(r, g) \<in> set (match pattern4 (s, Map.empty))"
  shows "\<exists>pre rest. s = pre @ rest \<and> pre \<noteq> [] \<and> (\<forall>c \<in> set pre. cls_word c)
           \<and> g ''type'' = Some pre
           \<and> (g ''force'' = None \<or> (g ''force'' = Some ''!'' \<and> prefix ''!'' rest))"
proof -
  define R2 where "R2 = seqs
     [Opt (seqs [Str ''('', Group ''scope'' (Plus (cls_not (CHR '')''))), Str '')'']),
      Str '': '', Group ''desc'' (Plus cls_any), EndText]"
  have p4: "pattern4 = Seq (Group ''type'' (Plus cls_word)) (Seq (Opt (Group ''force'' (Str ''!''))) R2)"
    by (simp add: pattern4_def R2_def)
  have names: "''type'' \<notin> set (group_names R2)" "''force'' \<notin> set (group_names R2)"
    by (simp_all add: R2_def)
  from assms obtain r1 g1 where 1: "(r1, g1) \<in> set (match (Group ''type'' (Plus cls_word)) (s, Map.empty))"
    and 2: "(r, g) \<in> set (match (Seq (Opt (Group ''force'' (Str ''!''))) R2) (r1, g1))"
    unfolding p4 by (rule match_SeqE)
  from 1 obtain pre where pre: "s = pre @ r1" "pre \<noteq> []" "\<forall>c \<in> set pre. cls_word c"
    "g1 = [''type'' \<mapsto> pre]"
    by (auto simp: many_set)
  from 2 obtain r2 g2 where 3: "(r2, g2) \<in> set (match (Opt (Group ''force'' (Str ''!''))) (r1, g1))"
    and 4: "(r, g) \<in> set (match R2 (r2, g2))" by (rule match_SeqE)
  from 4 names have fr: "g ''type'' = g2 ''type''" "g ''force'' = g2 ''force''"
    by (auto dest: match_frame)
  from 3 have "g2 = g1 \<or> (prefix ''!'' r1 \<and> g2 = g1(''force'' \<mapsto> ''!''))"
    by (cases r1) (auto split: if_splits)
  with pre(4) fr have "g ''type'' = Some pre"
    and "g ''force'' = None \<or> (g ''force'' = Some ''!'' \<and> prefix ''!'' r1)"
    by auto
  with pre(1,2,3) show ?thesis by blast
qed

lemma ForceMajor_pattern123:
  assumes "p \<in> {pattern1, pattern2, pattern3}" and "FindStringSubmatch p s = Some m"
  shows "ForceMajor (apply_matches c (SubexpNames p) m) = ForceMajor c"
proof -
  from assms(2) obtain r g where "(r, g) \<in> set (match p (s, Map.empty))" and
    "m = take (length s - length r) s
           # map (\<lambda>n. case g n of Some v \<Rightarrow> v | None \<Rightarrow> '''') (group_names p)"
    by (rule FindStringSubmatch_Some)
  with assms(1) show ?thesis
    by (auto simp: apply_matches_def SubexpNames_def pattern1_def pattern2_def pattern3_def
        assign_def Let_def)
qed

lemma pattern4_apply:
  assumes "FindStringSubmatch pattern4 s = Some m"
  shows "\<exists>pre rest f. s = pre @ rest \<and> Type (apply_matches c (SubexpNames pattern4) m) = pre
           \<and> ForceMajor (apply_matches c (SubexpNames pattern4) m) = (ForceMajor c \<or> f)
           \<and> (f \<longrightarrow> prefix ''!'' rest)"
proof -
  from assms obtain r g where rg: "(r, g) \<in> set (match pattern4 (s, Map.empty))"
    and m: "m = take (length s - length r) s
           # map (\<lambda>n. case g n of Some v \<Rightarrow> v | None \<Rightarrow> '''') (group_names pattern4)"
    by (rule FindStringSubmatch_Some)
  from pattern4_results [OF rg] obtain pre rest where pr: "s = pre @ rest" "pre \<noteq> []"
    "\<forall>c \<in> set pre. cls_word c" "g ''type'' = Some pre"
    "g ''force'' = None \<or> (g ''force'' = Some ''!'' \<and> prefix ''!'' rest)" by blast
  let ?f = "(case g ''force'' of Some v \<Rightarrow> v | None \<Rightarrow> '''') = ''!''"
  have n: "group_names pattern4 = [''type'', ''force'', ''scope'', ''desc'']"
    by (simp add: pattern4_def)
  have "Type (apply_matches c (SubexpNames pattern4) m) = TrimSpace pre"
    by (simp add: m n apply_matches_def SubexpNames_def assign_def Let_def pr(4))
  then have 1: "Type (apply_matches c (SubexpNames pattern4) m) = pre"
    by (simp add: TrimSpace_word pr(2,3))
  have 2: "ForceMajor (apply_matches c (SubexpNames pattern4) m) = (ForceMajor c \<or> ?f)"
    by (simp add: m n apply_matches_def SubexpNames_def assign_def Let_def)
  from pr(5) have 3: "?f \<longrightarrow> prefix ''!'' rest" by auto
  from pr(1) 1 2 3 show ?thesis by blast
qed

lemma fallback_force:
  assumes nl: "\<forall>w \<in> set space_runes. \<not> prefix w msg"
  shows "\<exists>f. ForceMajor (fallback c msg) = (ForceMajor c \<or> f)
           \<and> (f \<longrightarrow> (\<exists>rest. msg = Type (fallback c msg) @ ''!'' @ rest))"
proof (cases "CHR '':'' \<in> set msg")
  case False
  then have "fallback c msg = c" by (simp add: fallback_def SplitN2_def)
  then show ?thesis by auto
next
  case True
  define p0 where "p0 = takeWhile (\<lambda>c. c \<noteq> CHR '':'') msg"
  define p1 where "p1 = tl (dropWhile (\<lambda>c. c \<noteq> CHR '':'') msg)"
  from True have sp: "SplitN2 msg (CHR '':'') = [p0, p1]"
    by (simp add: SplitN2_def p0_def p1_def)
  have "prefix p0 msg" unfolding p0_def by (metis prefixI takeWhile_dropWhile_id)
  then obtain q where q: "msg = p0 @ q" by (auto simp: prefix_def)
  have "\<forall>w \<in> set space_runes. \<not> prefix w p0"
    using nl q by (metis prefix_prefix)
  then have "TrimLeftSpace p0 = p0" by (rule TrimLeftSpace_id)
  then have ts: "TrimSpace p0 = TrimRightSpace p0" by (simp add: TrimSpace_def)
  obtain r where r: "p0 = TrimSpace p0 @ r"
    using TrimRightSpace_decomp [of p0] ts by auto
  let ?f = "suffix ''!'' (TrimSpace p0)"
  have 1: "ForceMajor (fallback c msg) = (ForceMajor c \<or> ?f)"
    by (simp add: fallback_def sp Let_def HasSuffix_def)
  have 2: "\<exists>rest. msg = Type (fallback c msg) @ ''!'' @ rest" if f: ?f
  proof -
    from f have "Type (fallback c msg) = butlast (TrimSpace p0)"
      by (simp add: fallback_def sp Let_def HasSuffix_def TrimSuffix_single)
    moreover from f have "TrimSpace p0 = butlast (TrimSpace p0) @ ''!''"
      by (metis append_butlast_last_id suffix_single)
    ultimately have "msg = Type (fallback c msg) @ ''!'' @ (r @ q)"
      using q r by (metis append_assoc)
    then show ?thesis by blast
  qed
  from 1 2 show ?thesis by blast
qed

lemma many_stop: "rest = [] \<or> \<not> P (hd rest) \<Longrightarrow> many P rest = []"
  by (cases rest) auto

lemma many_then:
  assumes "xs \<noteq> []" and "\<forall>x \<in> set xs. P x" and "rest = [] \<or> \<not> P (hd rest)"
    and fail: "\<And>c s'. P c \<Longrightarrow> f (c # s') = []"
  shows "concat (map f (many P (xs @ rest))) = f rest"
  using assms(1,2)
proof (induction xs)
  case Nil
  then show ?case by simp
next
  case (Cons x xs)
  show ?case
  proof (cases "xs = []")
    case True
    with Cons.prems assms(3) show ?thesis by (simp add: many_stop)
  next
    case False
    then obtain y ys where "xs = y # ys" by (cases xs) auto
    with Cons.prems have "f (xs @ rest) = []" by (simp add: fail)
    with Cons False show ?thesis by simp
  qed
qed

lemma match_Group_Plus_Seq:
  assumes "xs \<noteq> []" and "\<forall>x \<in> set xs. P x" and "rest = [] \<or> \<not> P (hd rest)"
    and fail: "\<And>c s' g'. P c \<Longrightarrow> match R (c # s', g') = []"
  shows "match (Seq (Group n (Plus P)) R) (xs @ rest, g) = match R (rest, g(n \<mapsto> xs))"
proof -
  let ?s = "xs @ rest"
  let ?f = "\<lambda>r. match R (r, g(n \<mapsto> take (length ?s - length r) ?s))"
  have "match (Seq (Group n (Plus P)) R) (?s, g) = concat (map ?f (many P ?s))"
    by (simp add: comp_def)
  also have "\<dots> = ?f rest"
    using assms(1,2,3) by (rule many_then) (simp add: fail)
  finally show ?thesis by simp
qed

lemma word_not_punct:
  "cls_word c \<Longrightarrow> c \<noteq> CHR ''!'' \<and> c \<noteq> CHR ''('' \<and> c \<noteq> CHR '':'' \<and> c \<noteq> CHR ''-''"
  by (auto simp: cls_word_def cls_digit_def cls_upper_def cls_lower_def)

lemma match_Seq_Str:
  "match (Seq (Str w) R) (s, g) = (if prefix w s then match R (drop (length w) s, g) else [])"
  by simp

lemma match_Seq_Opt:
  "match (Seq (Opt a) R) (s, g) = concat (map (match R) (match a (s, g))) @ match R (s, g)"
  by simp

lemma match_force:
  "match (Group ''force'' (Str ''!'')) (s, g) =
     (if prefix ''!'' s then [(drop 1 s, g(''force'' \<mapsto> ''!''))] else [])"
  by (cases s) auto

lemma pattern4_wellformed:
  assumes T: "T \<noteq> []" "\<forall>c \<in> set T. cls_word c"
    and S: "S \<noteq> []" "CHR '')'' \<notin> set S"
    and D: "D \<noteq> []" "CHR 0x0A \<notin> set D"
  shows "match pattern4 (T @ (if bang then ''!'' else '''') @ ''('' @ S @ ''): '' @ D, Map.empty)
         = [([], (if bang then [''type'' \<mapsto> T, ''force'' \<mapsto> ''!''] else [''type'' \<mapsto> T])
                   (''scope'' \<mapsto> S, ''desc'' \<mapsto> D))]"
proof -
  note [simp del] = match.simps
  define DE where "DE = Seq (Group ''desc'' (Plus cls_any)) EndText"
  define R3 where "R3 = Seq (Str '': '') DE"
  define SG where "SG = Seq (Group ''scope'' (Plus (cls_not (CHR '')'')))) (Str '')'')"
  define SC where "SC = Seq (Str ''('') SG"
  define R2 where "R2 = Seq (Opt SC) R3"
  define R1 where "R1 = Seq (Opt (Group ''force'' (Str ''!''))) R2"
  have p4: "pattern4 = Seq (Group ''type'' (Plus cls_word)) R1"
    by (simp add: pattern4_def R1_def R2_def R3_def SC_def SG_def DE_def)
  have desc: "match DE (D, g) = [([], g(''desc'' \<mapsto> D))]" for g
  proof -
    have "match DE (D @ [], g) = match EndText ([], g(''desc'' \<mapsto> D))"
      unfolding DE_def using D
      by (intro match_Group_Plus_Seq) (auto simp: cls_any_def match.simps)
    then show ?thesis by (simp add: match.simps)
  qed
  have r3: "match R3 (CHR '':'' # CHR '' '' # D, g) = [([], g(''desc'' \<mapsto> D))]" for g
    by (simp add: R3_def match_Seq_Str desc)
  have r3_fail: "match R3 (c # s', g) = []" if "c \<noteq> CHR '':''" for c s' g
    using that by (simp add: R3_def match_Seq_Str)
  have scope: "match SG (S @ CHR '')'' # rest, g) = [(rest, g(''scope'' \<mapsto> S))]" for rest g
  proof -
    have "match SG (S @ CHR '')'' # rest, g)
        = match (Str '')'') (CHR '')'' # rest, g(''scope'' \<mapsto> S))"
      unfolding SG_def using S
      by (intro match_Group_Plus_Seq) (auto simp: cls_not_def match.simps)
    then show ?thesis by (simp add: match.simps)
  qed
  have sc: "match SC (CHR ''('' # S @ CHR '')'' # rest, g) = [(rest, g(''scope'' \<mapsto> S))]" for rest g
    by (simp add: SC_def match_Seq_Str scope)
  have sc_fail: "match SC (c # s', g) = []" if "c \<noteq> CHR ''(''" for c s' g
    using that by (simp add: SC_def match_Seq_Str)
  have r2: "match R2 (CHR ''('' # S @ CHR '')'' # CHR '':'' # CHR '' '' # D, g)
      = [([], g(''scope'' \<mapsto> S, ''desc'' \<mapsto> D))]" for g
    by (simp add: R2_def match_Seq_Opt sc r3 r3_fail)
  have r2_fail: "match R2 (c # s', g) = []" if "c \<noteq> CHR ''(''" "c \<noteq> CHR '':''" for c s' g
    using that by (simp add: R2_def match_Seq_Opt sc_fail r3_fail)
  have r1_fail: "match R1 (c # s', g) = []" if "cls_word c" for c s' g
    using word_not_punct [OF that] by (auto simp: R1_def match_Seq_Opt match_force r2_fail)
  let ?tail = "CHR ''('' # S @ CHR '')'' # CHR '':'' # CHR '' '' # D"
  have r1: "match R1 ((if bang then ''!'' else '''') @ ?tail, g)
      = [([], (if bang then g(''force'' \<mapsto> ''!'') else g)(''scope'' \<mapsto> S, ''desc'' \<mapsto> D))]" for g
    by (simp add: R1_def match_Seq_Opt match_force r2 r2_fail)
  have nw: "\<not> cls_word (hd ((if bang then ''!'' else '''') @ ?tail))"
    by (simp add: cls_word_def cls_digit_def cls_upper_def cls_lower_def)
  have "match pattern4 (T @ (if bang then ''!'' else '''') @ ?tail, Map.empty)
      = match R1 ((if bang then ''!'' else '''') @ ?tail, [''type'' \<mapsto> T])"
    unfolding p4 using T nw r1_fail by (intro match_Group_Plus_Seq) blast+
  also have "\<dots> = [([], (if bang then [''type'' \<mapsto> T, ''force'' \<mapsto> ''!''] else [''type'' \<mapsto> T])
                   (''scope'' \<mapsto> S, ''desc'' \<mapsto> D))]"
    by (simp only: r1)
  finally show ?thesis by simp
qed

lemma board_fails:
  assumes T: "\<forall>c \<in> set T. cls_word c" and x: "x = CHR ''('' \<or> x = CHR ''!''"
  shows "match (Group ''board'' (seqs [Plus cls_upper, Str ''-'', Plus cls_digit])) (T @ x # X, g) = []"
proof -
  let ?s = "T @ x # X"
  have nx: "\<not> cls_upper x" "x \<noteq> CHR ''-''"
    using x by (auto simp: cls_upper_def)
  have "match (Seq (Str ''-'') (Plus cls_digit)) (r, g) = []" if "r \<in> set (many cls_upper ?s)" for r
  proof -
    from that obtain ys where ys: "ys \<noteq> []" "\<forall>y \<in> set ys. cls_upper y" "?s = ys @ r"
      by (auto simp: many_set)
    have "\<not> prefix ''-'' r"
    proof
      assume "prefix ''-'' r"
      then obtain r' where r: "r = CHR ''-'' # r'" by (cases r) auto
      with ys(3) have "T @ x # X = ys @ CHR ''-'' # r'" by simp
      with append_eq_append_conv2 [of T "x # X" ys "CHR ''-'' # r'"]
      consider us where "T = ys @ us" "us @ x # X = CHR ''-'' # r'"
        | us where "T @ us = ys" "x # X = us @ CHR ''-'' # r'" by blast
      then show False
      proof cases
        case 1
        show False
        proof (cases us)
          case Nil
          with 1 nx show False by simp
        next
          case (Cons u us')
          with 1 have "CHR ''-'' \<in> set T" by auto
          with T show False using word_not_punct by blast
        qed
      next
        case 2
        show False
        proof (cases us)
          case Nil
          with 2 nx show False by simp
        next
          case (Cons u us')
          with 2 have "x \<in> set ys" by auto
          with ys(2) nx show False by blast
        qed
      qed
    qed
    then show ?thesis by simp
  qed
  then have "match (Seq (Plus cls_upper) (Seq (Str ''-'') (Plus cls_digit))) (?s, g) = []"
    by (simp del: match.simps(1) add: comp_def)
  then show ?thesis by simp
qed

lemma pattern123_fail:
  assumes "\<forall>c \<in> set T. cls_word c" and "x = CHR ''('' \<or> x = CHR ''!''"
  shows "FindStringSubmatch pattern1 (T @ x # X) = None"
    and "FindStringSubmatch pattern2 (T @ x # X) = None"
    and "FindStringSubmatch pattern3 (T @ x # X) = None"
  using board_fails [OF assms, of X Map.empty]
  by (simp_all add: FindStringSubmatch_def pattern1_def pattern2_def pattern3_def
      del: match.simps(6))

lemma space_rune_0x20: "w \<in> set space_runes \<Longrightarrow> CHR 0x20 \<in> set w \<Longrightarrow> w = [CHR 0x20]"
  by (auto simp: space_runes_def)

lemma TrimRightSpace_after_blank:
  assumes "D \<noteq> []" and "TrimRightSpace D = D"
  shows "TrimRightSpace (Y @ CHR 0x20 # D) = Y @ CHR 0x20 # D"
proof (rule TrimRightSpace_id, rule ballI, rule notI)
  fix w assume w: "w \<in> set space_runes" and sf: "suffix w (Y @ CHR 0x20 # D)"
  from sf have "suffix w D \<or> (\<exists>pre. w = pre @ CHR 0x20 # D)"
    by (auto simp: suffix_append suffix_Cons)
  then show False
  proof
    assume "suffix w D"
    with TrimRightSpace_fixed [OF assms(2) w] show False by blast
  next
    assume "\<exists>pre. w = pre @ CHR 0x20 # D"
    then obtain pre where p: "w = pre @ CHR 0x20 # D" by blast
    then have "CHR 0x20 \<in> set w" by simp
    with w have "w = [CHR 0x20]" by (rule space_rune_0x20)
    with p assms(1) show False by (cases pre) auto
  qed
qed

lemma TrimSpace_wellformed:
  assumes "T \<noteq> []" and "\<forall>c \<in> set T. cls_word c" and "D \<noteq> []" and "TrimRightSpace D = D"
  shows "TrimSpace (T @ X @ CHR 0x20 # D) = T @ X @ CHR 0x20 # D"
proof -
  from assms(1,2) have "\<not> space_byte (hd (T @ X @ CHR 0x20 # D))"
    using word_not_space by (cases T) auto
  then have "TrimLeftSpace (T @ X @ CHR 0x20 # D) = T @ X @ CHR 0x20 # D"
    using assms(1) by (intro TrimLeftSpace_hd) auto
  moreover have "TrimRightSpace ((T @ X) @ CHR 0x20 # D) = (T @ X) @ CHR 0x20 # D"
    using assms(3,4) by (rule TrimRightSpace_after_blank)
  ultimately show ?thesis by (simp add: TrimSpace_def)
qed

section \<open>Claims about force markers and the round trip\<close>

text \<open>
  C2. For every raw commit message that contains \<open>Breaking\<close> or \<open>BREAKING\<close> anywhere,
  \<open>Parse\<close> returns a commit with \<open>ForceMajor\<close> set, whichever pattern or fallback
  produced it. Conversely \<open>ForceMajor\<close> is set only when such a substring occurs or an
  explicit force marker is present: the trimmed message starts with the parsed type
  followed directly by \<open>!\<close> (so \<open>!\<close> occurs in the message).
\<close>

theorem Parse_force_major:
  "(Contains raw ''Breaking'' \<or> Contains raw ''BREAKING'' \<longrightarrow> ForceMajor (fst (Parse raw)))
   \<and> (ForceMajor (fst (Parse raw)) \<longrightarrow>
        Contains raw ''Breaking'' \<or> Contains raw ''BREAKING''
        \<or> ((\<exists>rest. TrimSpace raw = Type (fst (Parse raw)) @ ''!'' @ rest)
            \<and> CHR ''!'' \<in> set raw))"
proof -
  define msg where "msg = TrimSpace raw"
  define c0 where "c0 = scanned raw msg"
  define brk where "brk \<longleftrightarrow> Contains raw ''Breaking'' \<or> Contains raw ''BREAKING''"
  have c0: "ForceMajor c0 = brk"
    by (simp add: c0_def scanned_def msg_def brk_def Contains_TrimSpace_Breaking)
  have nl: "\<forall>w \<in> set space_runes. \<not> prefix w msg"
    unfolding msg_def using TrimSpace_no_leading by blast
  have mark: "CHR ''!'' \<in> set raw" if "msg = t @ ''!'' @ rest" for t rest
  proof -
    obtain l r where "raw = l @ msg @ r" unfolding msg_def using TrimSpace_decomp by blast
    with that show ?thesis by simp
  qed
  have "\<exists>f. ForceMajor (fst (Parse raw)) = (brk \<or> f)
          \<and> (f \<longrightarrow> (\<exists>rest. msg = Type (fst (Parse raw)) @ ''!'' @ rest))"
  proof (cases "FindStringSubmatch pattern1 msg")
    case (Some m)
    then have "Parse raw = (apply_matches c0 (SubexpNames pattern1) m, None)"
      by (simp add: Parse_def Let_def patterns_def msg_def c0_def)
    with Some c0 show ?thesis by (auto simp: ForceMajor_pattern123)
  next
    case n1: None
    show ?thesis
    proof (cases "FindStringSubmatch pattern2 msg")
      case (Some m)
      with n1 have "Parse raw = (apply_matches c0 (SubexpNames pattern2) m, None)"
        by (simp add: Parse_def Let_def patterns_def msg_def c0_def)
      with Some c0 show ?thesis by (auto simp: ForceMajor_pattern123)
    next
      case n2: None
      show ?thesis
      proof (cases "FindStringSubmatch pattern3 msg")
        case (Some m)
        with n1 n2 have "Parse raw = (apply_matches c0 (SubexpNames pattern3) m, None)"
          by (simp add: Parse_def Let_def patterns_def msg_def c0_def)
        with Some c0 show ?thesis by (auto simp: ForceMajor_pattern123)
      next
        case n3: None
        show ?thesis
        proof (cases "FindStringSubmatch pattern4 msg")
          case (Some m)
          with n1 n2 n3 have P: "Parse raw = (apply_matches c0 (SubexpNames pattern4) m, None)"
            by (simp add: Parse_def Let_def patterns_def msg_def c0_def)
          from pattern4_apply [OF Some, of c0] obtain pre rest f where
            "msg = pre @ rest" "Type (apply_matches c0 (SubexpNames pattern4) m) = pre"
            "ForceMajor (apply_matches c0 (SubexpNames pattern4) m) = (ForceMajor c0 \<or> f)"
            "f \<longrightarrow> prefix ''!'' rest" by blast
          then have "ForceMajor (fst (Parse raw)) = (brk \<or> f)
              \<and> (f \<longrightarrow> (\<exists>rest. msg = Type (fst (Parse raw)) @ ''!'' @ rest))"
            by (auto simp: P c0 prefix_def)
          then show ?thesis by blast
        next
          case n4: None
          with n1 n2 n3 have P: "Parse raw = (fallback c0 msg, None)"
            by (simp add: Parse_def Let_def patterns_def msg_def c0_def)
          from fallback_force [OF nl, of c0] show ?thesis by (simp add: P c0)
        qed
      qed
    qed
  qed
  then obtain f where f: "ForceMajor (fst (Parse raw)) = (brk \<or> f)"
    "f \<longrightarrow> (\<exists>rest. msg = Type (fst (Parse raw)) @ ''!'' @ rest)" by blast
  show ?thesis
  proof (intro conjI impI)
    assume "Contains raw ''Breaking'' \<or> Contains raw ''BREAKING''"
    then show "ForceMajor (fst (Parse raw))" by (simp add: f(1) brk_def)
  next
    assume "ForceMajor (fst (Parse raw))"
    with f have "brk \<or> (\<exists>rest. msg = Type (fst (Parse raw)) @ ''!'' @ rest)" by blast
    then show "Contains raw ''Breaking'' \<or> Contains raw ''BREAKING''
        \<or> ((\<exists>rest. TrimSpace raw = Type (fst (Parse raw)) @ ''!'' @ rest)
            \<and> CHR ''!'' \<in> set raw)"
      using mark unfolding brk_def msg_def by blast
  qed
qed

theorem Parse_force_major_witness:
  "Contains ''Docs: BREAKING layout'' ''BREAKING''
   \<and> ForceMajor (fst (Parse ''Docs: BREAKING layout''))
   \<and> Type (fst (Parse ''Docs: BREAKING layout'')) = ''Docs''
   \<and> ForceMajor (fst (Parse '' Fix!(auth): patch ''))
   \<and> \<not> Contains '' Fix!(auth): patch '' ''Breaking''
   \<and> \<not> Contains '' Fix!(auth): patch '' ''BREAKING''
   \<and> (\<exists>rest. TrimSpace '' Fix!(auth): patch ''
          = Type (fst (Parse '' Fix!(auth): patch '')) @ ''!'' @ rest)
   \<and> CHR ''!'' \<in> set '' Fix!(auth): patch ''
   \<and> \<not> ForceMajor (fst (Parse ''Fix: calm''))"
proof -
  let ?a = "''Docs: BREAKING layout''" and ?b = "'' Fix!(auth): patch ''"
  have a: "Contains ?a ''BREAKING''" by code_simp
  have ta: "Type (fst (Parse ?a)) = ''Docs''" by code_simp
  have b: "ForceMajor (fst (Parse ?b))" by code_simp
  have nb: "\<not> Contains ?b ''Breaking''" "\<not> Contains ?b ''BREAKING''" by code_simp+
  have c: "\<not> ForceMajor (fst (Parse ''Fix: calm''))" by code_simp
  from Parse_force_major [of ?a] a have 1: "ForceMajor (fst (Parse ?a))" by blast
  from Parse_force_major [of ?b] b nb
  have 2: "(\<exists>rest. TrimSpace ?b = Type (fst (Parse ?b)) @ ''!'' @ rest) \<and> CHR ''!'' \<in> set ?b"
    by blast
  from a 1 ta b nb 2 c show ?thesis by blast
qed

text \<open>
  C9. For every well-formed input \<open>TYPE(SCOPE): DESC\<close> (the type a non-empty word, also
  with the force marker \<open>!\<close> after it; a non-empty scope without \<open>)\<close>; a non-empty
  description on one line without trailing white space), \<open>Parse\<close> recovers the type,
  the scope and the description, and \<open>String\<close> renders them in order: the type (with
  \<open>!\<close> when \<open>ForceMajor\<close>), the scope in parentheses and the description, joined
  by single spaces.
\<close>

theorem Parse_String_roundtrip:
  assumes "T \<noteq> []" and "\<forall>c \<in> set T. cls_word c"
    and "S \<noteq> []" and "CHR '')'' \<notin> set S"
    and "D \<noteq> []" and "CHR 0x0A \<notin> set D" and "TrimRightSpace D = D"
    and "raw = T @ (if bang then ''!'' else '''') @ ''('' @ S @ ''): '' @ D"
    and "c = fst (Parse raw)"
  shows "Type c = T \<and> Scope c = S \<and> Description c = D \<and> Board c = ''''
       \<and> ForceMajor c = (bang \<or> Contains raw ''Breaking'' \<or> Contains raw ''BREAKING'')
       \<and> Commit_String c =
           T @ (if ForceMajor c then ''!'' else '''') @ '' ('' @ S @ '') '' @ D"
proof -
  let ?b = "if bang then ''!'' else ''''"
  have "TrimSpace (T @ (?b @ ''('' @ S @ ''):'') @ CHR 0x20 # D)
      = T @ (?b @ ''('' @ S @ ''):'') @ CHR 0x20 # D"
    using assms(1,2,5,7) by (rule TrimSpace_wellformed)
  then have ts: "TrimSpace raw = raw" by (simp add: assms(8))
  obtain x X where x: "raw = T @ x # X" "x = CHR ''('' \<or> x = CHR ''!''"
    by (cases bang) (auto simp: assms(8))
  note n123 = pattern123_fail [OF assms(2) x(2), of X, folded x(1)]
  have m: "match pattern4 (raw, Map.empty)
      = [([], (if bang then [''type'' \<mapsto> T, ''force'' \<mapsto> ''!''] else [''type'' \<mapsto> T])
                (''scope'' \<mapsto> S, ''desc'' \<mapsto> D))]"
    unfolding assms(8) using assms(1-6) by (rule pattern4_wellformed)
  have gn: "group_names pattern4 = [''type'', ''force'', ''scope'', ''desc'']"
    by (simp add: pattern4_def)
  have f4: "FindStringSubmatch pattern4 raw = Some [raw, T, ?b, S, D]"
    by (simp add: FindStringSubmatch_def m gn)
  have tt: "TrimSpace T = T" using assms(1,2) by (rule TrimSpace_word)
  have "Parse raw = (apply_matches (scanned raw raw) (SubexpNames pattern4) [raw, T, ?b, S, D], None)"
    by (simp add: Parse_def Let_def ts patterns_def n123 f4)
  then have c: "c = \<lparr>Hash = '''', Message = raw, Type = T, Scope = S, Board = '''',
      Description = D,
      ForceMajor = (bang \<or> Contains raw ''Breaking'' \<or> Contains raw ''BREAKING'')\<rparr>"
    by (auto simp: assms(9) apply_matches_def SubexpNames_def gn assign_def Let_def
        scanned_def tt)
  show ?thesis
    using assms(1,3,5) by (simp add: c Commit_String_def)
qed

theorem Parse_String_roundtrip_witness:
  "Type (fst (Parse ''Feature(log): added logger wrap'')) = ''Feature''
   \<and> Scope (fst (Parse ''Feature(log): added logger wrap'')) = ''log''
   \<and> Description (fst (Parse ''Feature(log): added logger wrap'')) = ''added logger wrap''
   \<and> Commit_String (fst (Parse ''Feature(log): added logger wrap''))
       = ''Feature (log) added logger wrap''
   \<and> Commit_String (fst (Parse ''Fix!(auth): critical security patch''))
       = ''Fix! (auth) critical security patch''"
proof -
  have w: "\<forall>c \<in> set ''Feature''. cls_word c" "\<forall>c \<in> set ''Fix''. cls_word c"
    by (simp_all add: cls_word_def cls_digit_def cls_upper_def cls_lower_def)
  have t: "TrimRightSpace ''added logger wrap'' = ''added logger wrap''"
    "TrimRightSpace ''critical security patch'' = ''critical security patch''"
    by code_simp+
  have b: "\<not> Contains ''Feature(log): added logger wrap'' ''Breaking''"
    "\<not> Contains ''Feature(log): added logger wrap'' ''BREAKING''"
    by code_simp+
  from Parse_String_roundtrip [of "''Feature''" "''log''" "''added logger wrap''"
      "''Feature(log): added logger wrap''" False, OF _ w(1) _ _ _ _ t(1) _ refl]
  have 1: "Type (fst (Parse ''Feature(log): added logger wrap'')) = ''Feature''
   \<and> Scope (fst (Parse ''Feature(log): added logger wrap'')) = ''log''
   \<and> Description (fst (Parse ''Feature(log): added logger wrap'')) = ''added logger wrap''
   \<and> Commit_String (fst (Parse ''Feature(log): added logger wrap''))
       = ''Feature (log) added logger wrap''"
    using b by simp
  from Parse_String_roundtrip [of "''Fix''" "''auth''" "''critical security patch''"
      "''Fix!(auth): critical security patch''" True, OF _ w(2) _ _ _ _ t(2) _ refl]
  have 2: "Commit_String (fst (Parse ''Fix!(auth): critical security patch''))
       = ''Fix! (auth) critical security patch''"
    by simp
  from 1 2 show ?thesis by simp
qed

end
